theory Spec2Isabelle
  imports Complex_Main
begin

section \<open>Characters and strings of the Python runtime\<close>

text \<open>
  A Python \<open>str\<close> is modelled as a \<open>string\<close>, one \<open>char\<close> per code point, so the
  development covers the code points 0 to 255 (Latin-1). The three tables below are the
  ones of the Python runtime on that range: \<open>str.isspace\<close> (also the \<open>\s\<close> of \<open>re\<close>),
  the word characters \<open>\w\<close> of \<open>re\<close> (alphanumeric or underscore) and \<open>str.lower\<close>.
\<close>

definition is_space :: "char \<Rightarrow> bool" where
  "is_space c =
     (let n = (of_char c :: nat)
      in (9 \<le> n \<and> n \<le> 13) \<or> (28 \<le> n \<and> n \<le> 32) \<or> n = 133 \<or> n = 160)"

definition is_word :: "char \<Rightarrow> bool" where
  "is_word c =
     (let n = (of_char c :: nat)
      in (48 \<le> n \<and> n \<le> 57) \<or> (65 \<le> n \<and> n \<le> 90) \<or> n = 95 \<or> (97 \<le> n \<and> n \<le> 122)
         \<or> n = 170 \<or> n = 178 \<or> n = 179 \<or> n = 181 \<or> n = 185 \<or> n = 186
         \<or> (188 \<le> n \<and> n \<le> 190) \<or> (192 \<le> n \<and> n \<le> 214) \<or> (216 \<le> n \<and> n \<le> 246)
         \<or> 248 \<le> n)"

definition lower_char :: "char \<Rightarrow> char" where
  "lower_char c =
     (let n = (of_char c :: nat)
      in if (65 \<le> n \<and> n \<le> 90) \<or> (192 \<le> n \<and> n \<le> 214) \<or> (216 \<le> n \<and> n \<le> 222)
         then char_of (n + 32) else c)"

text \<open>\<open>s.lower()\<close>, \<open>s.startswith(p)\<close> and \<open>s.strip()\<close>.\<close>

definition lower :: "string \<Rightarrow> string" where
  "lower s = map lower_char s"

definition startswith :: "string \<Rightarrow> string \<Rightarrow> bool" where
  "startswith s p = (take (length p) s = p)"

definition strip :: "string \<Rightarrow> string" where
  "strip s = rev (dropWhile is_space (rev (dropWhile is_space s)))"

section \<open>The regular expression \<open>URL_RE\<close>\<close>

text \<open>
  The fragment of \<open>re\<close> that the pattern uses, compiled with the flag \<open>(?i)\<close>: literals
  (compared ignoring case), \<open>\s\<close>, a negated set, \<open>\b\<close>, sequence, alternation, the greedy
  \<open>?\<close> and the greedy \<open>+\<close> on a one-character pattern.
\<close>

datatype item = Ch char | Space

datatype atom = Lit char | NotSet "item list"

datatype rx =
    Eps
  | Atom atom
  | WordB
  | Seq rx rx
  | Alt rx rx
  | Opt rx
  | Plus atom

fun item_ok :: "item \<Rightarrow> char \<Rightarrow> bool" where
  "item_ok (Ch a) c = (lower_char c = lower_char a)"
| "item_ok Space c = is_space c"

fun atom_ok :: "atom \<Rightarrow> char \<Rightarrow> bool" where
  "atom_ok (Lit a) c = (lower_char c = lower_char a)"
| "atom_ok (NotSet its) c = (\<not> list_ex (\<lambda>it. item_ok it c) its)"

text \<open>
  A position in the subject string: the text before it, reversed, and the text from it on.
\<close>

type_synonym pos = "string \<times> string"

fun word_boundary :: "pos \<Rightarrow> bool" where
  "word_boundary (pre, rest) =
     ((case pre of [] \<Rightarrow> False | c # _ \<Rightarrow> is_word c)
        \<noteq> (case rest of [] \<Rightarrow> False | c # _ \<Rightarrow> is_word c))"

text \<open>
  The backtracking matcher, in continuation-passing style: \<open>match r k p\<close> matches \<open>r\<close> at
  \<open>p\<close> and hands the position after it to \<open>k\<close>; when \<open>k\<close> fails the next alternative of \<open>r\<close>
  is tried, in the order of \<open>re\<close>: the left branch of \<open>|\<close> first, the longer repetition first.
\<close>

fun many :: "atom \<Rightarrow> (pos \<Rightarrow> pos option) \<Rightarrow> pos \<Rightarrow> pos option" where
  "many a k (pre, []) = k (pre, [])"
| "many a k (pre, c # cs) =
     (if atom_ok a c
      then (case many a k (c # pre, cs) of
              Some e \<Rightarrow> Some e
            | None \<Rightarrow> k (pre, c # cs))
      else k (pre, c # cs))"

fun match :: "rx \<Rightarrow> (pos \<Rightarrow> pos option) \<Rightarrow> pos \<Rightarrow> pos option" where
  "match Eps k p = k p"
| "match (Atom a) k (pre, rest) =
     (case rest of
        [] \<Rightarrow> None
      | c # cs \<Rightarrow> if atom_ok a c then k (c # pre, cs) else None)"
| "match WordB k p = (if word_boundary p then k p else None)"
| "match (Seq r1 r2) k p = match r1 (match r2 k) p"
| "match (Alt r1 r2) k p =
     (case match r1 k p of Some e \<Rightarrow> Some e | None \<Rightarrow> match r2 k p)"
| "match (Opt r) k p =
     (case match r k p of Some e \<Rightarrow> Some e | None \<Rightarrow> k p)"
| "match (Plus a) k (pre, rest) =
     (case rest of
        [] \<Rightarrow> None
      | c # cs \<Rightarrow> if atom_ok a c then many a k (c # pre, cs) else None)"

text \<open>
  \<open>pattern.search(s)\<close> followed by \<open>m.group(0)\<close>: the match at the leftmost start position
  that has one, \<open>None\<close> when no position has.
\<close>

fun search_from :: "rx \<Rightarrow> string \<Rightarrow> string \<Rightarrow> string option" where
  "search_from r pre [] =
     (case match r Some (pre, []) of
        Some (e, _) \<Rightarrow> Some (rev (take (length e - length pre) e))
      | None \<Rightarrow> None)"
| "search_from r pre (c # cs) =
     (case match r Some (pre, c # cs) of
        Some (e, _) \<Rightarrow> Some (rev (take (length e - length pre) e))
      | None \<Rightarrow> search_from r (c # pre) cs)"

definition search :: "rx \<Rightarrow> string \<Rightarrow> string option" where
  "search r s = search_from r [] s"

fun lits :: "string \<Rightarrow> rx" where
  "lits [] = Eps"
| "lits (c # cs) = Seq (Atom (Lit c)) (lits cs)"

text \<open>The class \<open>[^\s<>"]\<close>.\<close>

definition url_class :: atom where
  "url_class = NotSet [Space, Ch CHR ''<'', Ch CHR ''>'', Ch (CHR 0x22)]"

text \<open>
  \<open>URL_RE = re.compile(r"(?i)\bhttps?://[^\s<>\"]+|www\.[^\s<>\"]+")\<close>; the alternation
  binds weakest, so \<open>\b\<close> belongs to the first branch only.
\<close>

definition URL_RE :: rx where
  "URL_RE =
     Alt (Seq WordB
           (Seq (lits ''http'')
             (Seq (Opt (Atom (Lit CHR ''s'')))
               (Seq (lits ''://'') (Plus url_class)))))
         (Seq (lits ''www.'') (Plus url_class))"

section \<open>The terminal viewer: \<open>normalize_url\<close>\<close>

text \<open>
  \<open>normalize_url\<close> of \<open>xlsx_row_viewer.py\<close>. Its argument is a \<open>str\<close>, on which \<open>s or ""\<close> is
  \<open>s\<close>.
\<close>

definition normalize_url :: "string \<Rightarrow> string option" where
  "normalize_url s0 =
     (let s = strip s0
      in if s = [] then None
         else (case search URL_RE s of
                 None \<Rightarrow> None
               | Some url \<Rightarrow>
                   if startswith (lower url) ''www.''
                   then Some (''https://'' @ url)
                   else Some url))"

section \<open>Cells and tables\<close>

text \<open>
  The exceptions that the modelled code can raise: \<open>IndexError\<close> from positional indexing
  and \<open>AttributeError\<close> from a module attribute that does not exist.
\<close>

datatype py_error = IndexError | AttributeError

text \<open>
  A raw cell as \<open>pandas\<close> hands it over: a missing value (\<open>NaN\<close>, \<open>None\<close>), a text, an
  integer, or a finite float. A float is given by its value and by the text that Python's
  \<open>str\<close> renders it as; that rendering (the shortest digits that round-trip) is not
  recomputed here.
\<close>

datatype cell = Missing | Text string | IntNum int | FloatNum rat string

definition digit_char :: "nat \<Rightarrow> char" where
  "digit_char d = char_of (48 + d)"

fun digits :: "nat \<Rightarrow> string" where
  "digits n = (if n < 10 then [digit_char n] else digits (n div 10) @ [digit_char (n mod 10)])"

declare digits.simps [simp del]

text \<open>\<open>str(i)\<close> of an integer \<open>i\<close>.\<close>

definition str_int :: "int \<Rightarrow> string" where
  "str_int i = (if i < 0 then CHR ''-'' # digits (nat (- i)) else digits (nat i))"

text \<open>\<open>str(x)\<close> of a cell value.\<close>

fun py_str :: "cell \<Rightarrow> string" where
  "py_str Missing = ''nan''"
| "py_str (Text t) = t"
| "py_str (IntNum i) = str_int i"
| "py_str (FloatNum q r) = r"

text \<open>\<open>x.is_integer()\<close> and \<open>int(x)\<close> (truncation towards zero) of a float.\<close>

definition is_integer :: "rat \<Rightarrow> bool" where
  "is_integer q = (of_int \<lfloor>q\<rfloor> = q)"

definition int_of_float :: "rat \<Rightarrow> int" where
  "int_of_float q = (if 0 \<le> q then \<lfloor>q\<rfloor> else \<lceil>q\<rceil>)"

text \<open>\<open>is_nan\<close>: \<open>pd.isna\<close> of a scalar.\<close>

definition is_nan :: "cell \<Rightarrow> bool" where
  "is_nan x = (x = Missing)"

text \<open>
  \<open>to_str\<close>. \<open>str\<close> raises on none of these values, so the \<open>except\<close> branch is not taken.
\<close>

definition to_str :: "cell \<Rightarrow> string" where
  "to_str x =
     (if is_nan x then []
      else (case x of
              FloatNum q r \<Rightarrow> if is_integer q then str_int (int_of_float q) else py_str x
            | _ \<Rightarrow> py_str x))"

text \<open>
  A \<open>DataFrame\<close>: the column labels in order and the rows in order, each row holding one
  cell per column, in column order. Labels are unique (the reader renames duplicates), so
  \<open>row[col]\<close> for the \<open>j\<close>-th label is the \<open>j\<close>-th cell of the row.
\<close>

record dataframe =
  columns :: "string list"
  rows :: "cell list list"

definition len :: "dataframe \<Rightarrow> int" where
  "len df = int (length (rows df))"

text \<open>
  The position that an integer index \<open>i\<close> selects in a sequence of \<open>n\<close> items, for a Python
  list as for \<open>df.iloc\<close>: \<open>i\<close> itself from \<open>0\<close> to \<open>n - 1\<close>, \<open>n + i\<close> for a negative \<open>i\<close>
  down to \<open>-n\<close>, and none otherwise.
\<close>

definition py_index :: "nat \<Rightarrow> int \<Rightarrow> nat option" where
  "py_index n i =
     (if 0 \<le> i \<and> i < int n then Some (nat i)
      else if - int n \<le> i \<and> i < 0 then Some (nat (int n + i))
      else None)"

text \<open>\<open>df.iloc[i]\<close> with an integer \<open>i\<close>; a position that does not exist raises.\<close>

definition iloc :: "dataframe \<Rightarrow> int \<Rightarrow> py_error + cell list" where
  "iloc df i =
     (case py_index (length (rows df)) i of
        None \<Rightarrow> Inl IndexError
      | Some j \<Rightarrow> Inr (rows df ! j))"

text \<open>\<open>xs[i]\<close> on a Python list.\<close>

definition py_get :: "'a list \<Rightarrow> int \<Rightarrow> py_error + 'a" where
  "py_get xs i =
     (case py_index (length xs) i of
        None \<Rightarrow> Inl IndexError
      | Some j \<Rightarrow> Inr (xs ! j))"

text \<open>The truth value of an \<open>Optional[str]\<close>: neither \<open>None\<close> nor the empty string.\<close>

fun truthy :: "string option \<Rightarrow> bool" where
  "truthy None = False"
| "truthy (Some u) = (u \<noteq> [])"

section \<open>The terminal viewer: \<open>row_lines\<close>, \<open>draw\<close>, \<open>interactive\<close>\<close>

type_synonym line = "string \<times> string \<times> string option"

text \<open>The body of the loop of \<open>row_lines\<close>, with its two accumulators.\<close>

fun row_loop :: "(string \<times> cell) list \<Rightarrow> line list \<times> int list \<Rightarrow> line list \<times> int list" where
  "row_loop [] acc = acc"
| "row_loop ((col, v) # rest) (lines, url_line_indices) =
     (let val_s = to_str v;
          url = normalize_url val_s;
          shown = (if val_s \<noteq> [] then val_s else ''(empty)'');
          lines' = lines @ [(col, shown, url)]
      in row_loop rest
           (lines', if truthy url then url_line_indices @ [int (length lines') - 1]
                    else url_line_indices))"

definition row_lines :: "dataframe \<Rightarrow> int \<Rightarrow> py_error + (line list \<times> int list)" where
  "row_lines df row_idx =
     (case iloc df row_idx of
        Inl e \<Rightarrow> Inl e
      | Inr row \<Rightarrow> Inr (row_loop (zip (columns df) row) ([], [])))"

text \<open>
  \<open>draw\<close>: what it decides, without the writes to the terminal (the header and the lines
  clipped to the window): the footer, the focused line (\<open>-1\<close> for none) and the returned
  focus index.
\<close>

datatype screen = EmptyScreen | RowScreen "line list" int string

definition draw :: "dataframe \<Rightarrow> int \<Rightarrow> int \<Rightarrow> py_error + (int \<times> screen)" where
  "draw df row_idx url_focus_i =
     (if len df = 0 then Inr (0, EmptyScreen)
      else (case row_lines df row_idx of
              Inl e \<Rightarrow> Inl e
            | Inr (lines, url_line_indices) \<Rightarrow>
                if url_line_indices = [] then
                  Inr (url_focus_i, RowScreen lines (- 1) ''No URL in this row.'')
                else
                  (let f = max 0 (min url_focus_i (int (length url_line_indices) - 1))
                   in case py_get url_line_indices f of
                        Inl e \<Rightarrow> Inl e
                      | Inr focused_line \<Rightarrow>
                          (case py_get lines focused_line of
                             Inl e \<Rightarrow> Inl e
                           | Inr (col, _, _) \<Rightarrow>
                               Inr (f, RowScreen lines focused_line
                                      (''Selected URL field: '' @ col
                                         @ ''  |  ENTER opens in your browser''))))))"

text \<open>
  The key codes: \<open>ord("q")\<close>, \<open>ord("Q")\<close> and the constants of the \<open>curses\<close> module. That
  module has \<open>KEY_BTAB\<close>, \<open>KEY_CTAB\<close>, \<open>KEY_STAB\<close> and \<open>KEY_CATAB\<close> but no attribute
  \<open>KEY_TAB\<close>, so evaluating \<open>curses.KEY_TAB\<close> raises \<open>AttributeError\<close>.
\<close>

definition KEY_RIGHT :: int where "KEY_RIGHT = 261"
definition KEY_LEFT :: int where "KEY_LEFT = 260"
definition KEY_ENTER :: int where "KEY_ENTER = 343"
definition KEY_TAB :: "py_error + int" where "KEY_TAB = Inl AttributeError"

type_synonym nav = "int \<times> int"

text \<open>The bodies of the TAB and ENTER branches; the second returns the URLs it opens.\<close>

definition tab_branch :: "dataframe \<Rightarrow> nav \<Rightarrow> py_error + nav" where
  "tab_branch df st =
     (case st of (row_idx, url_focus_i) \<Rightarrow>
        (case row_lines df row_idx of
           Inl e \<Rightarrow> Inl e
         | Inr (_, url_line_indices) \<Rightarrow>
             if url_line_indices \<noteq> []
             then Inr (row_idx, (url_focus_i + 1) mod int (length url_line_indices))
             else Inr (row_idx, url_focus_i)))"

definition enter_branch :: "dataframe \<Rightarrow> nav \<Rightarrow> py_error + string list" where
  "enter_branch df st =
     (case st of (row_idx, url_focus_i) \<Rightarrow>
        (case row_lines df row_idx of
           Inl e \<Rightarrow> Inl e
         | Inr (lines, url_line_indices) \<Rightarrow>
             if url_line_indices \<noteq> [] then
               (case py_get url_line_indices url_focus_i of
                  Inl e \<Rightarrow> Inl e
                | Inr focused_line \<Rightarrow>
                    (case py_get lines focused_line of
                       Inl e \<Rightarrow> Inl e
                     | Inr (_, _, url) \<Rightarrow>
                         (case url of
                            None \<Rightarrow> Inr []
                          | Some u \<Rightarrow> if u \<noteq> [] then Inr [u] else Inr [])))
             else Inr []))"

text \<open>
  The \<open>if\<close>/\<open>elif\<close> chain on the key read by \<open>getch\<close>, after the test for \<open>q\<close>. The tuple
  \<open>(curses.KEY_TAB, 9)\<close> is built as soon as the key is neither arrow.
\<close>

definition on_key :: "dataframe \<Rightarrow> int \<Rightarrow> nav \<Rightarrow> py_error + (nav \<times> string list)" where
  "on_key df ch st =
     (case st of (row_idx, url_focus_i) \<Rightarrow>
        if ch = KEY_RIGHT then
          (if row_idx < len df - 1 then Inr ((row_idx + 1, 0), []) else Inr (st, []))
        else if ch = KEY_LEFT then
          (if row_idx > 0 then Inr ((row_idx - 1, 0), []) else Inr (st, []))
        else
          (case KEY_TAB of
             Inl e \<Rightarrow> Inl e
           | Inr key_tab \<Rightarrow>
               if ch = key_tab \<or> ch = 9 then
                 (case tab_branch df st of Inl e \<Rightarrow> Inl e | Inr st' \<Rightarrow> Inr (st', []))
               else if ch = KEY_ENTER \<or> ch = 10 \<or> ch = 13 then
                 (case enter_branch df st of Inl e \<Rightarrow> Inl e | Inr opened \<Rightarrow> Inr (st, opened))
               else Inr (st, [])))"

text \<open>
  The \<open>while True\<close> loop over the keys that \<open>getch\<close> delivers. It returns the cursor pair
  and the URLs passed to \<open>webbrowser.open\<close>, in order, when \<open>q\<close> is read; when the keys run
  out the loop waits in \<open>getch\<close>, and the model returns what holds at that moment.
\<close>

fun main_loop :: "dataframe \<Rightarrow> int list \<Rightarrow> nav \<Rightarrow> py_error + (nav \<times> string list)" where
  "main_loop df [] (row_idx, url_focus_i) =
     (case draw df row_idx url_focus_i of
        Inl e \<Rightarrow> Inl e
      | Inr (f, _) \<Rightarrow> Inr ((row_idx, f), []))"
| "main_loop df (ch # chs) (row_idx, url_focus_i) =
     (case draw df row_idx url_focus_i of
        Inl e \<Rightarrow> Inl e
      | Inr (f, _) \<Rightarrow>
          if ch = 113 \<or> ch = 81 then Inr ((row_idx, f), [])
          else (case on_key df ch (row_idx, f) of
                  Inl e \<Rightarrow> Inl e
                | Inr (st', opened) \<Rightarrow>
                    (case main_loop df chs st' of
                       Inl e \<Rightarrow> Inl e
                     | Inr (st'', later) \<Rightarrow> Inr (st'', opened @ later))))"

text \<open>
  \<open>interactive\<close>: on an empty table it draws once, waits for one key and returns, with no
  cursor pair; otherwise it runs the loop from \<open>(0, 0)\<close>.
\<close>

definition interactive :: "dataframe \<Rightarrow> int list \<Rightarrow> py_error + (nav option \<times> string list)" where
  "interactive df chs =
     (if len df = 0 then
        (case draw df 0 0 of Inl e \<Rightarrow> Inl e | Inr _ \<Rightarrow> Inr (None, []))
      else
        (case main_loop df chs (0, 0) of
           Inl e \<Rightarrow> Inl e
         | Inr (st, opened) \<Rightarrow> Inr (Some st, opened)))"

section \<open>The GUI: \<open>xlsx_row_viewer_gui.py\<close>\<close>

text \<open>The state of \<open>App\<close> that navigation reads and writes.\<close>

record app =
  self_df :: dataframe
  self_row :: int
  self_focused_url :: "string option"

text \<open>The text that \<open>_add_selectable_value\<close> puts into the widget.\<close>

definition add_selectable_value :: "string \<Rightarrow> string" where
  "add_selectable_value text = (if text \<noteq> [] then text else ''(empty)'')"

text \<open>The URL that the loop body of \<open>render_row\<close> computes for a cell that is not missing.\<close>

definition render_row_url :: "cell \<Rightarrow> string option" where
  "render_row_url v =
     (let s = strip (py_str v)
      in if startswith s ''www.'' then Some (''https://'' @ s)
         else if startswith (lower s) ''http://'' \<or> startswith (lower s) ''https://''
              then Some s
              else None)"

text \<open>One column of \<open>render_row\<close>: the label, the text shown and the URL of the button.\<close>

definition render_cell :: "string \<times> cell \<Rightarrow> line" where
  "render_cell cv =
     (case cv of (col, v) \<Rightarrow>
        if is_nan v then (col, add_selectable_value ''(empty)'', None)
        else (let url = render_row_url v
              in if truthy url then (col, add_selectable_value (the url), url)
                 else (col, add_selectable_value (strip (py_str v)), None)))"

definition render_row :: "app \<Rightarrow> py_error + (app \<times> line list)" where
  "render_row a =
     (if len (self_df a) = 0 then Inr (a, [])
      else (case iloc (self_df a) (self_row a) of
              Inl e \<Rightarrow> Inl e
            | Inr r \<Rightarrow>
                Inr (a\<lparr>self_focused_url := None\<rparr>,
                     map render_cell (zip (columns (self_df a)) r))))"

definition prev_row :: "app \<Rightarrow> py_error + app" where
  "prev_row a =
     (if len (self_df a) = 0 then Inr a
      else if self_row a > 0 then
        (case render_row (a\<lparr>self_row := self_row a - 1\<rparr>) of
           Inl e \<Rightarrow> Inl e
         | Inr (a', _) \<Rightarrow> Inr a')
      else Inr a)"

definition next_row :: "app \<Rightarrow> py_error + app" where
  "next_row a =
     (if len (self_df a) = 0 then Inr a
      else if self_row a < len (self_df a) - 1 then
        (case render_row (a\<lparr>self_row := self_row a + 1\<rparr>) of
           Inl e \<Rightarrow> Inl e
         | Inr (a', _) \<Rightarrow> Inr a')
      else Inr a)"

text \<open>The URL that the loop body of \<open>open_all_urls\<close> appends for a cell, if any.\<close>

definition open_all_urls_url :: "cell \<Rightarrow> string option" where
  "open_all_urls_url v =
     (if is_nan v then None
      else (let s = strip (py_str v);
                s' = (if startswith s ''www.'' then ''https://'' @ s else s)
            in if startswith (lower s') ''http://'' \<or> startswith (lower s') ''https://''
               then Some s' else None))"

text \<open>\<open>open_all_urls\<close> and \<open>open_focused_url\<close> return the URLs given to \<open>webbrowser.open\<close>.\<close>

definition open_all_urls :: "app \<Rightarrow> py_error + string list" where
  "open_all_urls a =
     (if len (self_df a) = 0 then Inr []
      else (case iloc (self_df a) (self_row a) of
              Inl e \<Rightarrow> Inl e
            | Inr r \<Rightarrow> Inr (List.map_filter open_all_urls_url r)))"

definition open_focused_url :: "app \<Rightarrow> string list" where
  "open_focused_url a =
     (if truthy (self_focused_url a) then [the (self_focused_url a)] else [])"

text \<open>
  \<open>load_current_sheet\<close>, given what \<open>load_sheet\<close> returned (\<open>None\<close> when it raised, which
  leaves the empty \<open>pd.DataFrame()\<close>). \<open>reset_index(drop=True)\<close> renumbers the rows and keeps
  their order.
\<close>

definition load_current_sheet :: "app \<Rightarrow> dataframe option \<Rightarrow> py_error + app" where
  "load_current_sheet a loaded =
     (let a1 = a\<lparr>self_df := (case loaded of
                               Some d \<Rightarrow> d
                             | None \<Rightarrow> \<lparr>columns = [], rows = []\<rparr>),
                  self_row := 0, self_focused_url := None\<rparr>
      in case render_row a1 of Inl e \<Rightarrow> Inl e | Inr (a2, _) \<Rightarrow> Inr a2)"

text \<open>
  The events that the Tk main loop delivers to the navigation callbacks, one after the
  other; the run stops at the first exception.
\<close>

datatype event = Prev | Next

fun deliver :: "app \<Rightarrow> event list \<Rightarrow> py_error + app" where
  "deliver a [] = Inr a"
| "deliver a (ev # evs) =
     (case (case ev of Prev \<Rightarrow> prev_row a | Next \<Rightarrow> next_row a) of
        Inl e \<Rightarrow> Inl e
      | Inr a' \<Rightarrow> deliver a' evs)"

section \<open>Definitions used to state the properties\<close>

subsection \<open>URL detection, stated without the regular expression\<close>

text \<open>A character of the class \<open>[^\s<>"]\<close>, and the longest run of them at the head of a text.\<close>

definition url_char :: "char \<Rightarrow> bool" where
  "url_char c = (\<not> is_space c \<and> c \<noteq> CHR ''<'' \<and> c \<noteq> CHR ''>'' \<and> c \<noteq> CHR 0x22)"

definition url_run :: "string \<Rightarrow> string" where
  "url_run r = takeWhile url_char r"

text \<open>\<open>s\<close> begins with \<open>p\<close>, ignoring case.\<close>

definition ci_startswith :: "string \<Rightarrow> string \<Rightarrow> bool" where
  "ci_startswith s p = (lower (take (length p) s) = lower p)"

text \<open>
  The token that begins at the head of \<open>r\<close>, if any: \<open>https://\<close> or \<open>http://\<close> (only where
  \<open>scheme_ok\<close> allows a scheme to begin) or \<open>www.\<close>, followed by the longest non-empty run of
  URL characters.
\<close>

definition token_here :: "bool \<Rightarrow> string \<Rightarrow> string option" where
  "token_here scheme_ok r =
     (if scheme_ok \<and> ci_startswith r ''https://'' \<and> url_run (drop 8 r) \<noteq> []
      then Some (take 8 r @ url_run (drop 8 r))
      else if scheme_ok \<and> ci_startswith r ''http://'' \<and> url_run (drop 7 r) \<noteq> []
      then Some (take 7 r @ url_run (drop 7 r))
      else if ci_startswith r ''www.'' \<and> url_run (drop 4 r) \<noteq> []
      then Some (take 4 r @ url_run (drop 4 r))
      else None)"

text \<open>
  The first token of a text, scanning from the left; \<open>prev\<close> is the character before the
  text and \<open>ok prev\<close> says whether a scheme may begin after it.
\<close>

fun first_token :: "(char option \<Rightarrow> bool) \<Rightarrow> char option \<Rightarrow> string \<Rightarrow> string option" where
  "first_token ok prev [] = None"
| "first_token ok prev (c # cs) =
     (case token_here (ok prev) (c # cs) of
        Some t \<Rightarrow> Some t
      | None \<Rightarrow> first_token ok (Some c) cs)"


definition at_word_start :: "char option \<Rightarrow> bool" where
  "at_word_start prev = (case prev of None \<Rightarrow> True | Some c \<Rightarrow> \<not> is_word c)"

text \<open>Normalization of a token: \<open>https://\<close> goes before a token that begins with \<open>www.\<close>.\<close>

definition add_scheme :: "string \<Rightarrow> string" where
  "add_scheme t = (if ci_startswith t ''www.'' then ''https://'' @ t else t)"


text \<open>
  A URL that can be opened as it is: it begins with \<open>http://\<close> or \<open>https://\<close>, ignoring case,
  and holds no white space, angle bracket or double quote.
\<close>

definition openable :: "string \<Rightarrow> bool" where
  "openable u =
     ((startswith (lower u) ''http://'' \<or> startswith (lower u) ''https://'')
      \<and> list_all url_char u)"

text \<open>Auxiliary notions of the proofs about the matcher.\<close>

definition scheme_ok :: "string \<Rightarrow> bool" where
  "scheme_ok pre = (case pre of [] \<Rightarrow> True | c # _ \<Rightarrow> \<not> is_word c)"

definition tail_end :: "nat \<Rightarrow> string \<Rightarrow> string \<Rightarrow> string option" where
  "tail_end n pre r =
     (if url_run (drop n r) = [] then None else Some (rev (take n r @ url_run (drop n r)) @ pre))"

subsection \<open>Record views and the scenario table\<close>

text \<open>A decimal digit.\<close>

definition is_digit :: "char \<Rightarrow> bool" where
  "is_digit c = (48 \<le> (of_char c :: nat) \<and> (of_char c :: nat) \<le> 57)"


text \<open>The Field View that one pass of the loop of \<open>row_lines\<close> appends for a cell.\<close>

definition field_view :: "string \<times> cell \<Rightarrow> line" where
  "field_view cv =
     (case cv of (col, v) \<Rightarrow>
        (col, if to_str v \<noteq> [] then to_str v else ''(empty)'', normalize_url (to_str v)))"

text \<open>The URL of a Field View.\<close>

definition url_of :: "line \<Rightarrow> string option" where
  "url_of l = snd (snd l)"

text \<open>
  The table of the specification's scenario: three rows and two columns; row 0 has one URL
  field, row 1 has none, row 2 has two.
\<close>

definition scenario :: dataframe where
  "scenario =
     \<lparr>columns = [''name'', ''site''],
      rows = [[Text ''ann'', Text ''www.ann.org''],
              [Text ''bob'', Missing],
              [Text ''http://cy.net'', Text ''see https://cy.org now'']]\<rparr>"

text \<open>The body of the TAB branch run \<open>k\<close> times in a row, stopping at the first exception.\<close>

fun tab_branch_times :: "dataframe \<Rightarrow> nat \<Rightarrow> nav \<Rightarrow> py_error + nav" where
  "tab_branch_times df 0 st = Inr st"
| "tab_branch_times df (Suc k) st =
     (case tab_branch df st of
        Inl e \<Rightarrow> Inl e
      | Inr st' \<Rightarrow> tab_branch_times df k st')"

section \<open>The matcher on \<open>URL_RE\<close>\<close>

lemma lower_char_code:
  "(of_char (lower_char c) :: nat) =
     (if (65 \<le> (of_char c :: nat) \<and> (of_char c :: nat) \<le> 90)
         \<or> (192 \<le> (of_char c :: nat) \<and> (of_char c :: nat) \<le> 214)
         \<or> (216 \<le> (of_char c :: nat) \<and> (of_char c :: nat) \<le> 222)
      then of_char c + 32 else of_char c)"
  by (auto simp: lower_char_def Let_def)

lemma lower_char_eq_code:
  "(lower_char c = a) = ((of_char (lower_char c) :: nat) = of_char a)"
  by simp

lemma space_not_word: "is_space c \<Longrightarrow> \<not> is_word c"
  by (auto simp: is_space_def is_word_def Let_def)

lemma char_eq_code: "((c::char) = a) = ((of_char c :: nat) = of_char a)"
  by simp

lemma atom_ok_url_class: "atom_ok url_class c = url_char c"
  unfolding url_class_def url_char_def
  apply (simp add: lower_char_eq_code lower_char_code)
  apply (simp add: char_eq_code[of c])
  done

lemma ci_startswith_Nil [simp]: "ci_startswith r []"
  by (simp add: ci_startswith_def lower_def)

lemma ci_startswith_Cons:
  "ci_startswith r (a # p) =
     (case r of [] \<Rightarrow> False | c # cs \<Rightarrow> lower_char c = lower_char a \<and> ci_startswith cs p)"
  by (cases r) (auto simp: ci_startswith_def lower_def)

lemma ci_startswith_length: "ci_startswith r p \<Longrightarrow> length p \<le> length r"
proof -
  assume "ci_startswith r p"
  then have "length (lower (take (length p) r)) = length (lower p)"
    by (simp add: ci_startswith_def)
  then show ?thesis by (simp add: lower_def)
qed

lemma ci_startswith_append:
  "ci_startswith r (a @ b) = (ci_startswith r a \<and> ci_startswith (drop (length a) r) b)"
proof (induction a arbitrary: r)
  case Nil
  show ?case by simp
next
  case (Cons x a)
  show ?case by (cases r) (simp_all add: ci_startswith_Cons Cons.IH)
qed

lemma many_Some:
  "many a Some (pre, r) = Some (rev (takeWhile (atom_ok a) r) @ pre, dropWhile (atom_ok a) r)"
  by (induction r arbitrary: pre) simp_all

lemma match_Plus_Some:
  "match (Plus a) Some (pre, r) =
     (if takeWhile (atom_ok a) r = [] then None
      else Some (rev (takeWhile (atom_ok a) r) @ pre, dropWhile (atom_ok a) r))"
  by (cases r) (simp_all add: many_Some)

lemma match_lits:
  "match (lits w) k (pre, r) =
     (if ci_startswith r w then k (rev (take (length w) r) @ pre, drop (length w) r) else None)"
proof (induction w arbitrary: pre r)
  case Nil
  show ?case by simp
next
  case (Cons c w)
  show ?case by (cases r) (simp_all add: ci_startswith_Cons Cons.IH)
qed

lemma match_tail:
  "map_option fst (match (Seq (lits p) (Plus url_class)) Some (pre, r)) =
     (if ci_startswith r p then tail_end (length p) pre r else None)"
  by (simp add: match_lits match_Plus_Some atom_ok_url_class [abs_def] url_run_def tail_end_def
        del: match.simps(7))

lemma not_s_colon: "lower_char c = lower_char CHR ''s'' \<Longrightarrow> lower_char c \<noteq> lower_char CHR '':''"
  by (simp add: lower_char_eq_code lower_char_code)

lemma match_opt_seq:
  "match (Seq (Opt (Atom a)) y) k (pre, r) =
     (case (case r of [] \<Rightarrow> None
            | c # cs \<Rightarrow> if atom_ok a c then match y k (c # pre, cs) else None) of
        Some e \<Rightarrow> Some e
      | None \<Rightarrow> match y k (pre, r))"
  by simp

lemma match_opt_s_any:
  assumes t: "\<And>pre' r'. map_option fst (match y Some (pre', r')) =
                (if ci_startswith r' ''://'' then tail_end 3 pre' r' else None)"
  shows "map_option fst (match (Seq (Opt (Atom (Lit CHR ''s''))) y) Some (pre, r)) =
     (if ci_startswith r ''s://'' \<and> url_run (drop 4 r) \<noteq> [] then tail_end 4 pre r
      else if ci_startswith r ''://'' then tail_end 3 pre r
      else None)"
proof (cases r)
  case Nil
  then show ?thesis
    using t [of pre r] by (simp add: ci_startswith_Cons)
next
  case (Cons c cs)
  show ?thesis
  proof (cases "lower_char c = lower_char CHR ''s''")
    case True
    have a: "\<not> ci_startswith r ''://''"
      using True not_s_colon by (simp add: Cons ci_startswith_Cons)
    have b: "ci_startswith r ''s://'' = ci_startswith cs ''://''"
      using True by (simp add: Cons ci_startswith_Cons)
    have c: "tail_end 4 pre r = tail_end 3 (c # pre) cs"
      by (simp add: tail_end_def Cons)
    have d: "(url_run (drop 4 r) = []) = (tail_end 3 (c # pre) cs = None)"
      by (simp add: tail_end_def Cons)
    have e: "match y Some (pre, r) = None"
      using t [of pre r] a by simp
    show ?thesis
      using t [of "c # pre" cs] a b c d e True
      by (cases "match y Some (c # pre, cs)") (auto simp add: Cons)
  next
    case False
    then show ?thesis
      using t [of pre r]
      by (simp add: Cons ci_startswith_Cons)
  qed
qed

lemma match_opt_s_tail:
  "map_option fst
     (match (Seq (Opt (Atom (Lit CHR ''s''))) (Seq (lits ''://'') (Plus url_class))) Some (pre, r)) =
     (if ci_startswith r ''s://'' \<and> url_run (drop 4 r) \<noteq> [] then tail_end 4 pre r
      else if ci_startswith r ''://'' then tail_end 3 pre r
      else None)"
  by (rule match_opt_s_any, subst match_tail) (simp add: numeral_3_eq_3)

lemma h_is_word: "lower_char c = lower_char CHR ''h'' \<Longrightarrow> is_word c"
  by (simp add: lower_char_eq_code lower_char_code is_word_def Let_def split: if_splits)

lemma word_boundary_http:
  "ci_startswith r ''http'' \<Longrightarrow> word_boundary (pre, r) = scheme_ok pre"
  by (cases r; cases pre) (auto simp: ci_startswith_Cons scheme_ok_def h_is_word)

lemma tail_end_shift:
  "tail_end n (rev (take m r) @ pre) (drop m r) = tail_end (m + n) pre r"
  by (simp add: tail_end_def take_add add.commute)

lemma match_word_lits_any:
  assumes t: "\<And>pre' r'. map_option fst (match y Some (pre', r')) = F pre' r'"
  shows "map_option fst (match (Seq WordB (Seq (lits w) y)) Some (pre, r)) =
     (if word_boundary (pre, r) \<and> ci_startswith r w
      then F (rev (take (length w) r) @ pre) (drop (length w) r)
      else None)"
  using t [of "rev (take (length w) r) @ pre" "drop (length w) r"]
  by (simp add: match_lits del: word_boundary.simps)

lemma len_lits:
  "length ''http'' = 4" "length ''www.'' = 4" "length ''://'' = 3" "length ''s://'' = 4"
  by simp_all

lemma match_first_alt:
  "map_option fst
     (match (Seq WordB (Seq (lits ''http'')
        (Seq (Opt (Atom (Lit CHR ''s''))) (Seq (lits ''://'') (Plus url_class))))) Some (pre, r)) =
     (if scheme_ok pre \<and> ci_startswith r ''https://'' \<and> url_run (drop 8 r) \<noteq> []
      then tail_end 8 pre r
      else if scheme_ok pre \<and> ci_startswith r ''http://'' then tail_end 7 pre r
      else None)"
proof -
  have a: "ci_startswith r ''https://'' = (ci_startswith r ''http'' \<and> ci_startswith (drop 4 r) ''s://'')"
    using ci_startswith_append [of r "''http''" "''s://''"] by (simp only: len_lits append.simps)
  have b: "ci_startswith r ''http://'' = (ci_startswith r ''http'' \<and> ci_startswith (drop 4 r) ''://'')"
    using ci_startswith_append [of r "''http''" "''://''"] by (simp only: len_lits append.simps)
  have c: "tail_end 4 (rev (take 4 r) @ pre) (drop 4 r) = tail_end 8 pre r"
          "tail_end 3 (rev (take 4 r) @ pre) (drop 4 r) = tail_end 7 pre r"
    by (simp_all add: tail_end_shift)
  have d: "ci_startswith r ''http'' \<Longrightarrow> word_boundary (pre, r) = scheme_ok pre"
    by (rule word_boundary_http)
  show ?thesis
    apply (subst match_word_lits_any [OF match_opt_s_tail])
    apply (simp only: len_lits)
    using d apply (auto simp add: a b c simp del: word_boundary.simps)
    done
qed

lemma match_URL_RE:
  "map_option fst (match URL_RE Some (pre, r)) =
     map_option (\<lambda>t. rev t @ pre) (token_here (scheme_ok pre) r)"
proof -
  have w: "map_option fst (match (Seq (lits ''www.'') (Plus url_class)) Some (pre, r)) =
             (if ci_startswith r ''www.'' then tail_end 4 pre r else None)"
    by (subst match_tail) (simp only: len_lits)
  have alt: "map_option fst (match (Alt x y) Some p) =
               (case map_option fst (match x Some p) of
                  Some e \<Rightarrow> Some e
                | None \<Rightarrow> map_option fst (match y Some p))" for x y p
    by (simp split: option.splits)
  show ?thesis
    unfolding URL_RE_def
    by (subst alt, subst match_first_alt, subst w)
       (auto simp add: token_here_def tail_end_def)
qed

lemma token_here_Nil [simp]: "token_here f [] = None"
  by (simp add: token_here_def ci_startswith_Cons)

lemma match_URL_RE_None:
  "token_here (scheme_ok pre) r = None \<Longrightarrow> match URL_RE Some (pre, r) = None"
  using match_URL_RE [of pre r] by simp

lemma match_URL_RE_Some:
  "token_here (scheme_ok pre) r = Some t \<Longrightarrow> \<exists>x. match URL_RE Some (pre, r) = Some (rev t @ pre, x)"
  using match_URL_RE [of pre r] by (cases "match URL_RE Some (pre, r)") auto

lemma scheme_ok_prev:
  "scheme_ok pre = at_word_start (case pre of [] \<Rightarrow> None | c # _ \<Rightarrow> Some c)"
  by (simp add: scheme_ok_def at_word_start_def split: list.splits)

lemma search_from_URL_RE:
  "search_from URL_RE pre r =
     first_token at_word_start (case pre of [] \<Rightarrow> None | c # _ \<Rightarrow> Some c) r"
proof (induction r arbitrary: pre)
  case Nil
  show ?case using match_URL_RE_None [of pre "[]"] by simp
next
  case (Cons c cs)
  show ?case
  proof (cases "token_here (scheme_ok pre) (c # cs)")
    case None
    then show ?thesis
      using match_URL_RE_None [OF None] Cons.IH [of "c # pre"]
      by (simp add: scheme_ok_prev)
  next
    case (Some t)
    then show ?thesis
      using match_URL_RE_Some [OF Some]
      by (auto simp add: scheme_ok_prev)
  qed
qed

lemma startswith_lower_www: "startswith (lower u) ''www.'' = ci_startswith u ''www.''"
proof -
  have "lower ''www.'' = ''www.''"
    by (simp add: lower_def lower_char_def)
  then show ?thesis
    by (simp add: startswith_def ci_startswith_def lower_def take_map)
qed

lemma normalize_url_strip:
  "normalize_url s = map_option add_scheme (first_token at_word_start None (strip s))"
  by (simp add: normalize_url_def Let_def search_def search_from_URL_RE startswith_lower_www
        add_scheme_def split: option.splits)

lemma is_space_lower_char: "is_space (lower_char a) = is_space a"
  by (auto simp add: is_space_def lower_char_code Let_def)

lemma space_lower_neq:
  "is_space c \<Longrightarrow> \<not> is_space a \<Longrightarrow> lower_char c \<noteq> lower_char a"
  by (metis is_space_lower_char)

lemma ci_startswith_trailing:
  assumes "\<forall>c\<in>set ws. is_space c" and "\<forall>a\<in>set p. \<not> is_space a"
  shows "ci_startswith (r @ ws) p = ci_startswith r p"
  using assms
proof (induction p arbitrary: r)
  case Nil
  show ?case by simp
next
  case (Cons a p)
  show ?case
  proof (cases r)
    case Nil
    then show ?thesis
      using Cons.prems by (cases ws) (auto simp add: ci_startswith_Cons space_lower_neq)
  next
    case (Cons x xs)
    then show ?thesis
      using Cons.IH [of xs] Cons.prems by (simp add: ci_startswith_Cons)
  qed
qed

lemma space_not_url_char: "is_space c \<Longrightarrow> \<not> url_char c"
  by (simp add: url_char_def)

lemma url_run_trailing:
  assumes "\<forall>c\<in>set ws. is_space c"
  shows "url_run (x @ ws) = url_run x"
proof (induction x)
  case Nil
  show ?case using assms by (cases ws) (simp_all add: url_run_def space_not_url_char)
next
  case (Cons a x)
  then show ?case by (simp add: url_run_def)
qed

lemma lits_no_space:
  "\<forall>a\<in>set ''https://''. \<not> is_space a"
  "\<forall>a\<in>set ''http://''. \<not> is_space a"
  "\<forall>a\<in>set ''www.''. \<not> is_space a"
  by (simp_all add: is_space_def)

lemma tail_trailing:
  assumes ws: "\<forall>c\<in>set ws. is_space c" and p: "ci_startswith r p" and n: "n = length p"
  shows "url_run (drop n (r @ ws)) = url_run (drop n r)" "take n (r @ ws) = take n r"
  using ci_startswith_length [OF p] url_run_trailing [OF ws, of "drop n r"] n by simp_all

lemma token_here_trailing:
  assumes ws: "\<forall>c\<in>set ws. is_space c"
  shows "token_here f (r @ ws) = token_here f r"
proof -
  have a: "ci_startswith (r @ ws) ''https://'' = ci_startswith r ''https://''"
          "ci_startswith (r @ ws) ''http://'' = ci_startswith r ''http://''"
          "ci_startswith (r @ ws) ''www.'' = ci_startswith r ''www.''"
    by (rule ci_startswith_trailing [OF ws lits_no_space(1)],
        rule ci_startswith_trailing [OF ws lits_no_space(2)],
        rule ci_startswith_trailing [OF ws lits_no_space(3)])
  have b: "ci_startswith r ''https://'' \<Longrightarrow>
             url_run (drop 8 (r @ ws)) = url_run (drop 8 r) \<and> take 8 (r @ ws) = take 8 r"
    using tail_trailing [OF ws, of r "''https://''" 8] by simp
  have c: "ci_startswith r ''http://'' \<Longrightarrow>
             url_run (drop 7 (r @ ws)) = url_run (drop 7 r) \<and> take 7 (r @ ws) = take 7 r"
    using tail_trailing [OF ws, of r "''http://''" 7] by simp
  have d: "ci_startswith r ''www.'' \<Longrightarrow>
             url_run (drop 4 (r @ ws)) = url_run (drop 4 r) \<and> take 4 (r @ ws) = take 4 r"
    using tail_trailing [OF ws, of r "''www.''" 4] by simp
  show ?thesis
    unfolding token_here_def a using b c d by auto
qed

lemma token_here_space_head: "is_space c \<Longrightarrow> token_here f (c # cs) = None"
  by (simp add: token_here_def ci_startswith_Cons space_lower_neq is_space_def [of "CHR ''h''"]
        is_space_def [of "CHR ''w''"])

lemma first_token_spaces:
  "\<forall>c\<in>set ws. is_space c \<Longrightarrow> first_token ok prev ws = None"
  by (induction ws arbitrary: prev) (simp_all add: token_here_space_head)

lemma first_token_trailing:
  assumes ws: "\<forall>c\<in>set ws. is_space c"
  shows "first_token ok prev (r @ ws) = first_token ok prev r"
proof (induction r arbitrary: prev)
  case Nil
  show ?case using first_token_spaces [OF ws] by simp
next
  case (Cons c cs)
  show ?case
    using token_here_trailing [OF ws, of "ok prev" "c # cs"] Cons.IH
    by (simp split: option.splits)
qed

lemma first_token_prev:
  "ok prev = ok prev' \<Longrightarrow> first_token ok prev r = first_token ok prev' r"
  by (cases r) simp_all

lemma first_token_leading:
  "\<forall>c\<in>set ws. is_space c \<Longrightarrow>
     first_token at_word_start None (ws @ r) = first_token at_word_start None r"
proof (induction ws)
  case Nil
  show ?case by simp
next
  case (Cons c ws)
  then have "is_space c" by simp
  then have "at_word_start (Some c) = at_word_start None"
    by (simp add: at_word_start_def space_not_word)
  then have "first_token at_word_start (Some c) (ws @ r) = first_token at_word_start None (ws @ r)"
    by (rule first_token_prev)
  then show ?case
    using Cons \<open>is_space c\<close> by (simp add: token_here_space_head)
qed

lemma strip_decompose:
  "\<exists>ws1 ws2. s = ws1 @ strip s @ ws2 \<and> (\<forall>c\<in>set ws1. is_space c) \<and> (\<forall>c\<in>set ws2. is_space c)"
proof -
  define s1 where "s1 = dropWhile is_space s"
  have a: "s = takeWhile is_space s @ s1"
    by (simp add: s1_def)
  have "rev (dropWhile is_space (rev s1)) @ rev (takeWhile is_space (rev s1)) =
          rev (takeWhile is_space (rev s1) @ dropWhile is_space (rev s1))"
    by (simp only: rev_append)
  also have "\<dots> = rev (rev s1)"
    by (simp only: takeWhile_dropWhile_id)
  also have "\<dots> = s1"
    by simp
  finally have b: "s1 = strip s @ rev (takeWhile is_space (rev s1))"
    by (simp add: strip_def s1_def)
  have c: "\<forall>c\<in>set (takeWhile is_space s). is_space c"
    by (auto dest: set_takeWhileD)
  have d: "\<forall>c\<in>set (rev (takeWhile is_space (rev s1))). is_space c"
    by (auto dest: set_takeWhileD)
  from a b have "s = takeWhile is_space s @ strip s @ rev (takeWhile is_space (rev s1))"
    by simp
  with c d show ?thesis by blast
qed

lemma first_token_strip:
  "first_token at_word_start None (strip s) = first_token at_word_start None s"
proof -
  obtain ws1 ws2 where s: "s = ws1 @ strip s @ ws2"
    and w1: "\<forall>c\<in>set ws1. is_space c" and w2: "\<forall>c\<in>set ws2. is_space c"
    using strip_decompose by blast
  have "first_token at_word_start None s = first_token at_word_start None (ws1 @ strip s @ ws2)"
    using s by simp
  also have "\<dots> = first_token at_word_start None (strip s @ ws2)"
    by (rule first_token_leading [OF w1])
  also have "\<dots> = first_token at_word_start None (strip s)"
    by (rule first_token_trailing [OF w2])
  finally show ?thesis by simp
qed

lemma url_char_lower_char: "url_char (lower_char c) = url_char c"
  by (auto simp add: url_char_def is_space_lower_char lower_char_eq_code lower_char_code
        char_eq_code [of c])

lemma ci_eq_url_char: "lower_char c = lower_char a \<Longrightarrow> url_char a \<Longrightarrow> url_char c"
  by (metis url_char_lower_char)

lemma ci_startswith_url_chars:
  "ci_startswith r p \<Longrightarrow> list_all url_char p \<Longrightarrow> list_all url_char (take (length p) r)"
proof (induction p arbitrary: r)
  case Nil
  show ?case by simp
next
  case (Cons a p)
  then show ?case
    by (cases r) (auto simp add: ci_startswith_Cons ci_eq_url_char)
qed

lemma ci_startswith_take:
  "ci_startswith r p \<Longrightarrow> ci_startswith (take (length p) r @ x) p"
  using ci_startswith_length [of r p] by (simp add: ci_startswith_def)

lemma lits_url_chars:
  "list_all url_char ''https://''" "list_all url_char ''http://''" "list_all url_char ''www.''"
  by (simp_all add: url_char_def is_space_def)

lemma url_run_chars: "list_all url_char (url_run r)"
  by (auto simp add: url_run_def list_all_iff dest: set_takeWhileD)

lemma token_here_shape:
  assumes "token_here f r = Some t"
  shows "list_all url_char t"
    and "ci_startswith t ''https://'' \<or> ci_startswith t ''http://'' \<or> ci_startswith t ''www.''"
    and "t \<noteq> []"
proof -
  have a: "ci_startswith r p \<Longrightarrow> list_all url_char p \<Longrightarrow> n = length p \<Longrightarrow>
           list_all url_char (take n r @ url_run (drop n r))
           \<and> ci_startswith (take n r @ url_run (drop n r)) p"
    for p n
    using ci_startswith_url_chars [of r p] ci_startswith_take [of r p] url_run_chars
    by simp
  have h8: "ci_startswith r ''https://'' \<Longrightarrow>
            list_all url_char (take 8 r @ url_run (drop 8 r))
            \<and> ci_startswith (take 8 r @ url_run (drop 8 r)) ''https://''"
    by (rule a [OF _ lits_url_chars(1)]) simp_all
  have h7: "ci_startswith r ''http://'' \<Longrightarrow>
            list_all url_char (take 7 r @ url_run (drop 7 r))
            \<and> ci_startswith (take 7 r @ url_run (drop 7 r)) ''http://''"
    by (rule a [OF _ lits_url_chars(2)]) simp_all
  have h4: "ci_startswith r ''www.'' \<Longrightarrow>
            list_all url_char (take 4 r @ url_run (drop 4 r))
            \<and> ci_startswith (take 4 r @ url_run (drop 4 r)) ''www.''"
    by (rule a [OF _ lits_url_chars(3)]) simp_all
  from assms consider
      "ci_startswith r ''https://''" "t = take 8 r @ url_run (drop 8 r)" "url_run (drop 8 r) \<noteq> []"
    | "ci_startswith r ''http://''" "t = take 7 r @ url_run (drop 7 r)" "url_run (drop 7 r) \<noteq> []"
    | "ci_startswith r ''www.''" "t = take 4 r @ url_run (drop 4 r)" "url_run (drop 4 r) \<noteq> []"
    by (auto simp add: token_here_def split: if_splits)
  then have "list_all url_char t
    \<and> (ci_startswith t ''https://'' \<or> ci_startswith t ''http://'' \<or> ci_startswith t ''www.'')
    \<and> t \<noteq> []"
  proof cases
    case 1
    then show ?thesis using h8 by simp
  next
    case 2
    then show ?thesis using h7 by simp
  next
    case 3
    then show ?thesis using h4 by simp
  qed
  then show "list_all url_char t"
    and "ci_startswith t ''https://'' \<or> ci_startswith t ''http://'' \<or> ci_startswith t ''www.''"
    and "t \<noteq> []"
    by simp_all
qed

lemma first_token_here:
  "first_token ok prev r = Some t \<Longrightarrow> \<exists>f r'. token_here f r' = Some t"
  by (induction r arbitrary: prev) (auto split: option.splits)

lemma startswith_lower_lits:
  "startswith (lower u) ''https://'' = ci_startswith u ''https://''"
  "startswith (lower u) ''http://'' = ci_startswith u ''http://''"
proof -
  have "lower ''https://'' = ''https://''" "lower ''http://'' = ''http://''"
    by (simp_all add: lower_def lower_char_def)
  then show "startswith (lower u) ''https://'' = ci_startswith u ''https://''"
    "startswith (lower u) ''http://'' = ci_startswith u ''http://''"
    by (simp_all add: startswith_def ci_startswith_def lower_def take_map)
qed

lemma add_scheme_openable:
  assumes "token_here f r = Some t"
  shows "openable (add_scheme t)"
proof (cases "ci_startswith t ''www.''")
  case True
  have "startswith (lower (''https://'' @ t)) ''https://''"
    by (simp add: startswith_def lower_def lower_char_def)
  then show ?thesis
    using True token_here_shape(1) [OF assms]
    by (simp add: add_scheme_def openable_def url_char_def is_space_def)
next
  case False
  then show ?thesis
    using token_here_shape [OF assms]
    by (auto simp add: add_scheme_def openable_def startswith_lower_lits)
qed

lemma normalize_url_first_token:
  "normalize_url s = map_option add_scheme (first_token at_word_start None s)"
  by (simp add: normalize_url_strip first_token_strip)

lemma normalize_url_openable: "normalize_url s = Some u \<Longrightarrow> openable u"
  using first_token_here add_scheme_openable
  by (fastforce simp add: normalize_url_first_token)

lemma normalize_url_nonempty: "normalize_url s \<noteq> Some []"
  using normalize_url_openable [of s "[]"]
  by (auto simp add: openable_def startswith_def lower_def)


section \<open>Record views\<close>

lemma filter_upt_Cons:
  "filter (\<lambda>k. Q ((x # xs) ! k)) [0..<Suc (length xs)] =
     (if Q x then [0] else []) @ map Suc (filter (\<lambda>k. Q (xs ! k)) [0..<length xs])"
proof -
  have "[0..<Suc (length xs)] = 0 # map Suc [0..<length xs]"
    using upt_conv_Cons [of 0 "Suc (length xs)"] by (simp add: map_Suc_upt del: upt_Suc)
  then show ?thesis
    by (simp add: filter_map o_def del: upt_Suc)
qed

lemma row_loop_step:
  "row_loop (cv # cvs) (lines, idxs) =
     row_loop cvs (lines @ [field_view cv],
                   if truthy (url_of (field_view cv)) then idxs @ [int (length lines)] else idxs)"
  by (cases cv) (simp add: field_view_def url_of_def Let_def)

lemma row_loop_eq:
  "row_loop cvs (lines, idxs) =
     (lines @ map field_view cvs,
      idxs @ map (\<lambda>k. int (length lines) + int k)
               (filter (\<lambda>k. truthy (url_of (field_view (cvs ! k)))) [0..<length cvs]))"
proof (induction cvs arbitrary: lines idxs)
  case Nil
  show ?case by simp
next
  case (Cons cv cvs)
  have "filter (\<lambda>k. truthy (url_of (field_view ((cv # cvs) ! k)))) [0..<length (cv # cvs)] =
        (if truthy (url_of (field_view cv)) then [0] else [])
        @ map Suc (filter (\<lambda>k. truthy (url_of (field_view (cvs ! k)))) [0..<length cvs])"
    using filter_upt_Cons [of "\<lambda>c. truthy (url_of (field_view c))" cv cvs] by simp
  then show ?case
    by (simp add: row_loop_step Cons.IH o_def del: row_loop.simps upt_Suc)
qed

lemma row_lines_eq:
  assumes "0 \<le> i" "i < len t"
  shows "row_lines t i =
     Inr (map field_view (zip (columns t) (rows t ! nat i)),
          map int (filter (\<lambda>k. truthy (url_of (field_view (zip (columns t) (rows t ! nat i) ! k))))
                    [0..<length (zip (columns t) (rows t ! nat i))]))"
  using assms by (simp add: row_lines_def iloc_def py_index_def len_def row_loop_eq)





section \<open>The claims about URL detection\<close>






section \<open>The claims about \<open>row_lines\<close>\<close>

text \<open>
  C3, as the code has it. \<open>row_lines\<close> raises \<open>IndexError\<close> for every row index at or above
  the row count and for every row index below minus the row count; it clamps none. A
  negative index from minus the row count on counts from the end: it yields the view of
  the row at row count plus index. An index within the table raises nothing.
\<close>

theorem row_lines_out_of_range:
  "(i < - len t \<or> len t \<le> i \<longrightarrow> row_lines t i = Inl IndexError)
   \<and> (- len t \<le> i \<and> i < 0 \<longrightarrow>
        row_lines t i = row_lines t (len t + i) \<and> row_lines t i \<noteq> Inl IndexError)
   \<and> (0 \<le> i \<and> i < len t \<longrightarrow> row_lines t i \<noteq> Inl IndexError)"
  by (auto simp add: row_lines_def iloc_def py_index_def len_def)

theorem row_lines_out_of_range_witness:
  "len scenario \<le> 3 \<and> row_lines scenario 3 = Inl IndexError
   \<and> - len scenario \<le> - 2 \<and> row_lines scenario (- 2) = row_lines scenario 1"
proof -
  have a: "len scenario = 3"
    by (simp add: len_def scenario_def)
  show ?thesis
    using a row_lines_out_of_range [of 3 scenario] row_lines_out_of_range [of "- 2" scenario]
    by simp
qed

text \<open>
  C3 as it is worded fails: \<open>-1\<close> is outside \<open>[0, 3)\<close>, and \<open>row_lines\<close> returns the view of
  the last row for it instead of failing.
\<close>

theorem row_lines_negative_index_wraps:
  "len scenario = 3
   \<and> row_lines scenario (- 1) =
       Inr ([(''name'', ''http://cy.net'', Some ''http://cy.net''),
             (''site'', ''see https://cy.org now'', Some ''https://cy.org'')], [0, 1])
   \<and> row_lines scenario (- 1) = row_lines scenario 2"
proof -
  have "len scenario = 3"
    by (simp add: len_def scenario_def)
  moreover have "row_lines scenario (- 1) =
       Inr ([(''name'', ''http://cy.net'', Some ''http://cy.net''),
             (''site'', ''see https://cy.org now'', Some ''https://cy.org'')], [0, 1])"
    by code_simp
  moreover have "row_lines scenario (- 1) = row_lines scenario 2"
    by code_simp
  ultimately show ?thesis by simp
qed



section \<open>Navigation\<close>

lemma py_get_ok: "0 \<le> i \<Longrightarrow> i < int (length xs) \<Longrightarrow> py_get xs i = Inr (xs ! nat i)"
  by (simp add: py_get_def py_index_def)

lemma row_lines_ok:
  assumes "0 \<le> r" "r < len t"
  shows "\<exists>lines idxs. row_lines t r = Inr (lines, idxs)
           \<and> (\<forall>k\<in>set idxs. 0 \<le> k \<and> k < int (length lines))"
  using row_lines_eq [OF assms] by auto

lemma draw_ok:
  assumes "0 \<le> r" "r < len t"
  shows "\<exists>f' scr. draw t r f = Inr (f', scr)"
proof -
  from row_lines_ok [OF assms] obtain lines idxs where
    a: "row_lines t r = Inr (lines, idxs)"
    and b: "\<forall>k\<in>set idxs. 0 \<le> k \<and> k < int (length lines)"
    by blast
  show ?thesis
  proof (cases "idxs = []")
    case True
    then show ?thesis using a assms by (simp add: draw_def)
  next
    case False
    define g where "g = max 0 (min f (int (length idxs) - 1))"
    have g: "0 \<le> g" "g < int (length idxs)"
      using False by (auto simp add: g_def)
    have c: "py_get idxs g = Inr (idxs ! nat g)"
      using g by (rule py_get_ok)
    have "idxs ! nat g \<in> set idxs"
      using g by simp
    then have "0 \<le> idxs ! nat g" "idxs ! nat g < int (length lines)"
      using b by auto
    then have d: "py_get lines (idxs ! nat g) = Inr (lines ! nat (idxs ! nat g))"
      by (rule py_get_ok)
    show ?thesis
      using a assms False c d
      by (cases "lines ! nat (idxs ! nat g)") (simp add: draw_def Let_def g_def [symmetric])
  qed
qed

lemma on_key_right:
  "on_key t KEY_RIGHT (r, f) = Inr (if r < len t - 1 then (r + 1, 0) else (r, f), [])"
  by (simp add: on_key_def)

lemma on_key_left:
  "on_key t KEY_LEFT (r, f) = Inr (if r > 0 then (r - 1, 0) else (r, f), [])"
  by (simp add: on_key_def KEY_LEFT_def KEY_RIGHT_def)

lemma on_key_tab: "on_key t 9 st = Inl AttributeError"
  by (cases st) (simp add: on_key_def KEY_LEFT_def KEY_RIGHT_def KEY_TAB_def)

lemma main_loop_nav:
  assumes "list_all (\<lambda>k. k = KEY_RIGHT \<or> k = KEY_LEFT) ks" "0 \<le> r" "r < len t"
  shows "\<exists>r' f'. main_loop t ks (r, f) = Inr ((r', f'), []) \<and> 0 \<le> r' \<and> r' < len t"
  using assms
proof (induction ks arbitrary: r f)
  case Nil
  from draw_ok [OF Nil(2,3), of f] obtain f' scr where "draw t r f = Inr (f', scr)"
    by blast
  then show ?case using Nil by simp
next
  case (Cons k ks)
  from draw_ok [OF Cons.prems(2,3), of f] obtain f' scr where d: "draw t r f = Inr (f', scr)"
    by blast
  from Cons.prems(1) have k: "k = KEY_RIGHT \<or> k = KEY_LEFT" and ks: "list_all (\<lambda>k. k = KEY_RIGHT \<or> k = KEY_LEFT) ks"
    by simp_all
  from k have q: "k \<noteq> 113" "k \<noteq> 81"
    by (auto simp add: KEY_RIGHT_def KEY_LEFT_def)
  have "\<exists>r1 f1. on_key t k (r, f') = Inr ((r1, f1), []) \<and> 0 \<le> r1 \<and> r1 < len t"
    using k Cons.prems(2,3) by (auto simp add: on_key_right on_key_left)
  then obtain r1 f1 where s: "on_key t k (r, f') = Inr ((r1, f1), [])" and r1: "0 \<le> r1" "r1 < len t"
    by blast
  from Cons.IH [OF ks r1, of f1] obtain r' f'' where
    "main_loop t ks (r1, f1) = Inr ((r', f''), [])" "0 \<le> r'" "r' < len t"
    by blast
  then show ?case
    using d q s by simp
qed

lemma main_loop_stay:
  assumes "0 < len t"
  shows "\<exists>f'. main_loop t (replicate n KEY_RIGHT) (len t - 1, f) = Inr ((len t - 1, f'), [])"
proof (induction n arbitrary: f)
  case 0
  from draw_ok [of "len t - 1" t f] assms obtain f' scr where "draw t (len t - 1) f = Inr (f', scr)"
    by auto
  then show ?case by simp
next
  case (Suc n)
  from draw_ok [of "len t - 1" t f] assms obtain f' scr where d: "draw t (len t - 1) f = Inr (f', scr)"
    by auto
  from Suc [of f'] obtain f'' where
    "main_loop t (replicate n KEY_RIGHT) (len t - 1, f') = Inr ((len t - 1, f''), [])"
    by blast
  moreover have "KEY_RIGHT \<noteq> 113" "KEY_RIGHT \<noteq> 81"
    by (simp_all add: KEY_RIGHT_def)
  ultimately show ?case
    using d by (simp add: on_key_right)
qed

lemma render_row_ok:
  assumes "0 \<le> self_row a" "self_row a < len (self_df a)"
  shows "\<exists>ls. render_row a = Inr (a\<lparr>self_focused_url := None\<rparr>, ls)"
proof -
  have "len (self_df a) \<noteq> 0"
    using assms by simp
  then show ?thesis
    using assms by (simp add: render_row_def iloc_def py_index_def len_def)
qed

lemma prev_row_ok:
  assumes "0 \<le> self_row a" "self_row a < len (self_df a)"
  shows "\<exists>a'. prev_row a = Inr a' \<and> self_df a' = self_df a
           \<and> self_row a' = (if self_row a > 0 then self_row a - 1 else self_row a)"
proof (cases "self_row a > 0")
  case True
  then show ?thesis
    using assms render_row_ok [of "a\<lparr>self_row := self_row a - 1\<rparr>"]
    by (auto simp add: prev_row_def)
next
  case False
  then show ?thesis using assms by (simp add: prev_row_def)
qed

lemma next_row_ok:
  assumes "0 \<le> self_row a" "self_row a < len (self_df a)"
  shows "\<exists>a'. next_row a = Inr a' \<and> self_df a' = self_df a
           \<and> self_row a' = (if self_row a < len (self_df a) - 1 then self_row a + 1 else self_row a)"
proof (cases "self_row a < len (self_df a) - 1")
  case True
  then show ?thesis
    using assms render_row_ok [of "a\<lparr>self_row := self_row a + 1\<rparr>"]
    by (auto simp add: next_row_def)
next
  case False
  then show ?thesis using assms by (simp add: next_row_def)
qed

lemma deliver_ok:
  assumes "0 \<le> self_row a" "self_row a < len (self_df a)"
  shows "\<exists>a'. deliver a evs = Inr a' \<and> self_df a' = self_df a
           \<and> 0 \<le> self_row a' \<and> self_row a' < len (self_df a')"
  using assms
proof (induction evs arbitrary: a)
  case Nil
  then show ?case by simp
next
  case (Cons ev evs)
  obtain a1 where s: "(case ev of Prev \<Rightarrow> prev_row a | Next \<Rightarrow> next_row a) = Inr a1"
    and d: "self_df a1 = self_df a" and r: "0 \<le> self_row a1" "self_row a1 < len (self_df a1)"
    using prev_row_ok [OF Cons.prems] next_row_ok [OF Cons.prems] Cons.prems
    by (cases ev) (auto split: if_splits)
  from Cons.IH [OF r] d s show ?case by auto
qed

lemma deliver_empty: "len (self_df a) = 0 \<Longrightarrow> deliver a evs = Inr a"
proof (induction evs)
  case Nil
  show ?case by simp
next
  case (Cons ev evs)
  then show ?case by (cases ev) (simp_all add: prev_row_def next_row_def)
qed

section \<open>The claims about navigation\<close>

text \<open>
  C4. On a table with at least one row, every sequence of RIGHT and LEFT keys, from the
  cursor \<open>(0, 0)\<close> that \<open>interactive\<close> starts with, is handled without an exception and
  leaves the record cursor within \<open>[0, rowCount)\<close>. RIGHT at the last record and LEFT at
  record \<open>0\<close> change nothing, and any number of RIGHT keys at the last record leaves the
  record cursor there. The same holds of \<open>next_row\<close> and \<open>prev_row\<close> of the GUI, for every
  sequence of them from a row within the table.
\<close>

theorem record_cursor_stays_in_range:
  "(0 < len t \<and> list_all (\<lambda>k. k = KEY_RIGHT \<or> k = KEY_LEFT) ks \<longrightarrow>
      (\<exists>r f. interactive t ks = Inr (Some (r, f), []) \<and> 0 \<le> r \<and> r < len t))
   \<and> on_key t KEY_RIGHT (len t - 1, f) = Inr ((len t - 1, f), [])
   \<and> on_key t KEY_LEFT (0, f) = Inr ((0, f), [])
   \<and> (0 < len t \<longrightarrow>
        (\<exists>f'. main_loop t (replicate n KEY_RIGHT) (len t - 1, f) = Inr ((len t - 1, f'), [])))
   \<and> (0 \<le> self_row a \<and> self_row a < len (self_df a) \<longrightarrow>
        (\<exists>a'. deliver a evs = Inr a' \<and> self_df a' = self_df a
              \<and> 0 \<le> self_row a' \<and> self_row a' < len (self_df a')))
   \<and> (self_row a = len (self_df a) - 1 \<longrightarrow> next_row a = Inr a)
   \<and> (self_row a = 0 \<longrightarrow> prev_row a = Inr a)"
proof -
  have a: "0 < len t \<and> list_all (\<lambda>k. k = KEY_RIGHT \<or> k = KEY_LEFT) ks \<longrightarrow>
      (\<exists>r f. interactive t ks = Inr (Some (r, f), []) \<and> 0 \<le> r \<and> r < len t)"
  proof
    assume h: "0 < len t \<and> list_all (\<lambda>k. k = KEY_RIGHT \<or> k = KEY_LEFT) ks"
    then obtain r f where "main_loop t ks (0, 0) = Inr ((r, f), [])" "0 \<le> r" "r < len t"
      using main_loop_nav [of ks 0 t 0] by auto
    then show "\<exists>r f. interactive t ks = Inr (Some (r, f), []) \<and> 0 \<le> r \<and> r < len t"
      using h by (simp add: interactive_def)
  qed
  have b: "on_key t KEY_RIGHT (len t - 1, f) = Inr ((len t - 1, f), [])"
    by (simp add: on_key_right)
  have c: "on_key t KEY_LEFT (0, f) = Inr ((0, f), [])"
    by (simp add: on_key_left)
  have d: "0 < len t \<longrightarrow>
        (\<exists>f'. main_loop t (replicate n KEY_RIGHT) (len t - 1, f) = Inr ((len t - 1, f'), []))"
    using main_loop_stay by blast
  have e: "0 \<le> self_row a \<and> self_row a < len (self_df a) \<longrightarrow>
        (\<exists>a'. deliver a evs = Inr a' \<and> self_df a' = self_df a
              \<and> 0 \<le> self_row a' \<and> self_row a' < len (self_df a'))"
    using deliver_ok by blast
  have g: "self_row a = len (self_df a) - 1 \<longrightarrow> next_row a = Inr a"
    by (simp add: next_row_def)
  have h: "self_row a = 0 \<longrightarrow> prev_row a = Inr a"
    by (simp add: prev_row_def)
  from a b c d e g h show ?thesis by blast
qed

theorem record_cursor_stays_in_range_witness:
  "0 < len scenario
   \<and> list_all (\<lambda>k. k = KEY_RIGHT \<or> k = KEY_LEFT) [KEY_RIGHT, KEY_RIGHT, KEY_RIGHT, KEY_LEFT]
   \<and> interactive scenario [KEY_RIGHT, KEY_RIGHT, KEY_RIGHT, KEY_LEFT] = Inr (Some (1, 0), [])
   \<and> (\<exists>r f. interactive scenario [KEY_RIGHT, KEY_RIGHT, KEY_RIGHT, KEY_LEFT] = Inr (Some (r, f), [])
          \<and> 0 \<le> r \<and> r < len scenario)"
proof -
  have a: "0 < len scenario"
    by (simp add: len_def scenario_def)
  have b: "list_all (\<lambda>k. k = KEY_RIGHT \<or> k = KEY_LEFT) [KEY_RIGHT, KEY_RIGHT, KEY_RIGHT, KEY_LEFT]"
    by simp
  have c: "interactive scenario [KEY_RIGHT, KEY_RIGHT, KEY_RIGHT, KEY_LEFT] = Inr (Some (1, 0), [])"
    by code_simp
  show ?thesis
    using a b c
      record_cursor_stays_in_range [of scenario "[KEY_RIGHT, KEY_RIGHT, KEY_RIGHT, KEY_LEFT]"]
    by blast
qed

text \<open>
  C7. On a table with no rows, \<open>interactive\<close> draws the empty screen and returns after one
  key, whatever the keys are, with no exception and no URL opened; \<open>draw\<close> returns the
  empty screen without reading a row. In the GUI \<open>prev_row\<close>, \<open>next_row\<close>, \<open>render_row\<close> and
  \<open>open_all_urls\<close> change nothing, open nothing and raise nothing, and after
  \<open>load_current_sheet\<close> of an empty or unreadable sheet \<open>open_focused_url\<close> opens nothing.
\<close>

theorem empty_table_is_inert:
  "(len t = 0 \<longrightarrow> interactive t ks = Inr (None, []) \<and> draw t r f = Inr (0, EmptyScreen))
   \<and> (len (self_df a) = 0 \<longrightarrow>
        prev_row a = Inr a \<and> next_row a = Inr a \<and> deliver a evs = Inr a
        \<and> render_row a = Inr (a, []) \<and> open_all_urls a = Inr []
        \<and> (self_focused_url a = None \<longrightarrow> open_focused_url a = []))
   \<and> (\<forall>d. loaded = None \<or> (loaded = Some d \<and> len d = 0) \<longrightarrow>
        (\<exists>a'. load_current_sheet a loaded = Inr a' \<and> len (self_df a') = 0
              \<and> self_focused_url a' = None \<and> open_focused_url a' = []))"
proof -
  have a: "len t = 0 \<longrightarrow> interactive t ks = Inr (None, []) \<and> draw t r f = Inr (0, EmptyScreen)"
    by (simp add: interactive_def draw_def)
  have b: "len (self_df a) = 0 \<longrightarrow>
        prev_row a = Inr a \<and> next_row a = Inr a \<and> deliver a evs = Inr a
        \<and> render_row a = Inr (a, []) \<and> open_all_urls a = Inr []
        \<and> (self_focused_url a = None \<longrightarrow> open_focused_url a = [])"
    using deliver_empty [of a evs]
    by (simp add: prev_row_def next_row_def render_row_def open_all_urls_def open_focused_url_def)
  have c: "\<forall>d. loaded = None \<or> (loaded = Some d \<and> len d = 0) \<longrightarrow>
        (\<exists>a'. load_current_sheet a loaded = Inr a' \<and> len (self_df a') = 0
              \<and> self_focused_url a' = None \<and> open_focused_url a' = [])"
    by (auto simp add: load_current_sheet_def render_row_def len_def open_focused_url_def)
  from a b c show ?thesis by blast
qed

theorem empty_table_is_inert_witness:
  "len \<lparr>columns = [''name''], rows = []\<rparr> = 0
   \<and> interactive \<lparr>columns = [''name''], rows = []\<rparr> [9, KEY_RIGHT] = Inr (None, [])
   \<and> next_row \<lparr>self_df = \<lparr>columns = [''name''], rows = []\<rparr>, self_row = 0,
                 self_focused_url = None\<rparr>
       = Inr \<lparr>self_df = \<lparr>columns = [''name''], rows = []\<rparr>, self_row = 0,
                 self_focused_url = None\<rparr>"
proof -
  have a: "len \<lparr>columns = [''name''], rows = []\<rparr> = 0"
    by (simp add: len_def)
  show ?thesis
    using a
      empty_table_is_inert [of "\<lparr>columns = [''name''], rows = []\<rparr>" "[9, KEY_RIGHT]" 0 0
        "\<lparr>self_df = \<lparr>columns = [''name''], rows = []\<rparr>, self_row = 0, self_focused_url = None\<rparr>"]
    by simp
qed

text \<open>
  C5, on the code. On the scenario table the first key RIGHT gives the cursor \<open>(1, 0)\<close>
  with no line focused (\<open>-1\<close>, "No URL in this row."), the second gives \<open>(2, 0)\<close>, and three
  LEFT keys after them end at \<open>(0, 0)\<close>; the key TAB, which the trace of the claim presses
  next, ends the program with \<open>AttributeError\<close> instead of moving the focus to \<open>(2, 1)\<close>.
\<close>

theorem scenario_trace_stops_at_tab:
  "interactive scenario [KEY_RIGHT] = Inr (Some (1, 0), [])
   \<and> draw scenario 1 0 = Inr (0, RowScreen [(''name'', ''bob'', None), (''site'', ''(empty)'', None)]
                                    (- 1) ''No URL in this row.'')
   \<and> interactive scenario [KEY_RIGHT, KEY_RIGHT] = Inr (Some (2, 0), [])
   \<and> interactive scenario [KEY_RIGHT, KEY_RIGHT, 9] = Inl AttributeError
   \<and> interactive scenario [KEY_RIGHT, KEY_RIGHT, KEY_LEFT, KEY_LEFT, KEY_LEFT] = Inr (Some (0, 0), [])"
proof -
  have "interactive scenario [KEY_RIGHT] = Inr (Some (1, 0), [])"
    by code_simp
  moreover have "draw scenario 1 0 =
      Inr (0, RowScreen [(''name'', ''bob'', None), (''site'', ''(empty)'', None)]
                (- 1) ''No URL in this row.'')"
    by code_simp
  moreover have "interactive scenario [KEY_RIGHT, KEY_RIGHT] = Inr (Some (2, 0), [])"
    by code_simp
  moreover have "interactive scenario [KEY_RIGHT, KEY_RIGHT, 9] = Inl AttributeError"
    by code_simp
  moreover have "interactive scenario [KEY_RIGHT, KEY_RIGHT, KEY_LEFT, KEY_LEFT, KEY_LEFT]
      = Inr (Some (0, 0), [])"
    by code_simp
  ultimately show ?thesis by simp
qed

text \<open>
  C6, on the code. In every state the key TAB (code \<open>9\<close>) raises \<open>AttributeError\<close>: the test
  of the TAB branch reads \<open>curses.KEY_TAB\<close>, which the module does not have, so the branch
  that advances the URL focus modulo the list length is never entered.
\<close>

theorem tab_key_raises:
  "on_key t 9 st = Inl AttributeError
   \<and> interactive scenario [9] = Inl AttributeError
   \<and> interactive scenario [KEY_RIGHT, 9] = Inl AttributeError"
proof -
  have "interactive scenario [9] = Inl AttributeError"
    by code_simp
  moreover have "interactive scenario [KEY_RIGHT, 9] = Inl AttributeError"
    by code_simp
  ultimately show ?thesis
    using on_key_tab by simp
qed

section \<open>The string form of a cell\<close>

lemma digit_char_is_digit: "d < 10 \<Longrightarrow> is_digit (digit_char d)"
  by (simp add: is_digit_def digit_char_def)

lemma digits_are_digits: "list_all is_digit (digits n)"
proof (induction n rule: digits.induct)
  case (1 n)
  show ?case
  proof (cases "n < 10")
    case True
    then show ?thesis
      by (subst digits.simps) (simp add: digit_char_is_digit)
  next
    case False
    then show ?thesis
      using 1 by (subst digits.simps) (simp add: digit_char_is_digit)
  qed
qed

lemma str_int_chars: "list_all (\<lambda>c. is_digit c \<or> c = CHR ''-'') (str_int i)"
  using digits_are_digits [of "nat i"] digits_are_digits [of "nat (- i)"]
  by (auto simp add: str_int_def list_all_iff)

lemma int_of_float_integer: "is_integer q \<Longrightarrow> of_int (int_of_float q) = q"
proof -
  assume "is_integer q"
  then obtain n where "q = of_int n"
    by (auto simp add: is_integer_def)
  then show ?thesis
    by (simp add: int_of_float_def)
qed

lemma strip_strip: "first_token at_word_start None (strip (strip s)) = first_token at_word_start None (strip s)"
  by (rule first_token_strip)

lemma normalize_url_of_strip: "normalize_url (strip s) = normalize_url s"
  by (simp add: normalize_url_strip strip_strip)

text \<open>
  C9, as the code has it. In the terminal viewer the string form of a cell is the
  rendering of its raw value, not trimmed: a text is kept as it is, and only URL detection
  works on the trimmed text. A missing cell has the empty string form, and a cell whose
  string form is empty is shown as the marker \<open>(empty)\<close>, so \<open>nan\<close> and \<open>None\<close> are never
  shown for it. A float that is mathematically an integer is rendered as the decimal digits
  of that integer, with a minus sign if negative and no decimal point; any other float is
  rendered as \<open>str\<close> renders it.
\<close>

theorem to_str_is_untrimmed_rendering:
  "to_str Missing = []
   \<and> to_str (Text s) = s
   \<and> to_str (IntNum n) = str_int n
   \<and> (is_integer q \<longrightarrow>
        to_str (FloatNum q r) = str_int (int_of_float q) \<and> of_int (int_of_float q) = q
        \<and> list_all (\<lambda>c. is_digit c \<or> c = CHR ''-'') (to_str (FloatNum q r)))
   \<and> (\<not> is_integer q \<longrightarrow> to_str (FloatNum q r) = r)
   \<and> fst (row_loop [(col, v)] ([], []))
       = [(col, if to_str v = [] then ''(empty)'' else to_str v, normalize_url (to_str v))]
   \<and> normalize_url (to_str (Text s)) = normalize_url (strip s)"
proof -
  have a: "is_integer q \<longrightarrow>
        to_str (FloatNum q r) = str_int (int_of_float q) \<and> of_int (int_of_float q) = q
        \<and> list_all (\<lambda>c. is_digit c \<or> c = CHR ''-'') (to_str (FloatNum q r))"
    using str_int_chars [of "int_of_float q"] int_of_float_integer [of q]
    by (simp add: to_str_def is_nan_def)
  have b: "fst (row_loop [(col, v)] ([], []))
       = [(col, if to_str v = [] then ''(empty)'' else to_str v, normalize_url (to_str v))]"
    by (simp add: Let_def)
  have c: "normalize_url (to_str (Text s)) = normalize_url (strip s)"
    by (simp add: to_str_def is_nan_def normalize_url_of_strip)
  show ?thesis
    using a b c by (simp add: to_str_def is_nan_def)
qed

theorem to_str_is_untrimmed_rendering_witness:
  "is_integer 3 \<and> to_str (FloatNum 3 ''3.0'') = ''3''
   \<and> \<not> is_integer (7 / 2) \<and> to_str (FloatNum (7 / 2) ''3.5'') = ''3.5''"
proof -
  have a: "is_integer 3"
    by (simp add: is_integer_def)
  have "\<lfloor>7 / 2 :: rat\<rfloor> = 3"
    by (rule floor_unique) simp_all
  then have b: "\<not> is_integer (7 / 2)"
    unfolding is_integer_def by simp
  have c: "str_int (int_of_float 3) = ''3''"
    by code_simp
  show ?thesis
    using a b c to_str_is_untrimmed_rendering [where q = 3 and r = "''3.0''"]
      to_str_is_untrimmed_rendering [where q = "7 / 2" and r = "''3.5''"]
    by simp
qed

text \<open>
  C9 as it is worded fails: the text \<open>" a "\<close> is shown with its blanks, not trimmed to
  \<open>"a"\<close>, and a cell of two blanks is shown as two blanks, not as the empty marker.
\<close>

theorem to_str_keeps_surrounding_blanks:
  "to_str (Text '' a '') = '' a '' \<and> strip '' a '' = ''a''
   \<and> row_lines \<lparr>columns = [''c''], rows = [[Text '' a ''], [Text ''  '']]\<rparr> 0
       = Inr ([(''c'', '' a '', None)], [])
   \<and> row_lines \<lparr>columns = [''c''], rows = [[Text '' a ''], [Text ''  '']]\<rparr> 1
       = Inr ([(''c'', ''  '', None)], [])"
proof -
  have "to_str (Text '' a '') = '' a ''"
    by code_simp
  moreover have "strip '' a '' = ''a''"
    by code_simp
  moreover have "row_lines \<lparr>columns = [''c''], rows = [[Text '' a ''], [Text ''  '']]\<rparr> 0
       = Inr ([(''c'', '' a '', None)], [])"
    by code_simp
  moreover have "row_lines \<lparr>columns = [''c''], rows = [[Text '' a ''], [Text ''  '']]\<rparr> 1
       = Inr ([(''c'', ''  '', None)], [])"
    by code_simp
  ultimately show ?thesis by simp
qed

section \<open>URL detection in the GUI\<close>

lemma startswith_https_prepended: "startswith (lower (''https://'' @ s)) ''https://''"
  by (simp add: startswith_def lower_def lower_char_def)

lemma open_all_urls_url_eq:
  "open_all_urls_url v = (if is_nan v then None else render_row_url v)"
  using startswith_https_prepended [of "strip (py_str v)"]
  by (simp add: open_all_urls_url_def render_row_url_def Let_def)

lemma render_row_url_truthy: "render_row_url v = Some u \<Longrightarrow> u \<noteq> []"
  by (auto simp add: render_row_url_def Let_def startswith_def lower_def split: if_splits)

lemma render_cell_url: "url_of (render_cell (col, v)) = open_all_urls_url v"
proof (cases "render_row_url v")
  case None
  then show ?thesis
    by (simp add: render_cell_def url_of_def open_all_urls_url_eq)
next
  case (Some u)
  then show ?thesis
    using render_row_url_truthy [OF Some]
    by (simp add: render_cell_def url_of_def open_all_urls_url_eq)
qed

lemma url_run_all: "list_all url_char x \<Longrightarrow> url_run x = x"
  by (simp add: url_run_def list_all_iff)

lemma first_token_head:
  "token_here (ok prev) r = Some t \<Longrightarrow> first_token ok prev r = Some t"
  by (cases r) simp_all

lemma token_here_www:
  assumes "x \<noteq> []" "list_all url_char x"
  shows "token_here f (''www.'' @ x) = Some (''www.'' @ x)"
  using assms url_run_all [OF assms(2)]
  by (simp add: token_here_def ci_startswith_def lower_def lower_char_def)

lemma token_here_http:
  assumes "x \<noteq> []" "list_all url_char x" "lower p = ''http://''"
  shows "token_here True (p @ x) = Some (p @ x)" "\<not> ci_startswith (p @ x) ''www.''"
    "\<not> startswith (p @ x) ''www.''" "startswith (lower (p @ x)) ''http://''"
proof -
  from assms(3) obtain a b c d e f g where p: "p = [a, b, c, d, e, f, g]"
    and l: "lower_char a = CHR ''h''" "lower_char b = CHR ''t''" "lower_char c = CHR ''t''"
      "lower_char d = CHR ''p''" "lower_char e = CHR '':''" "lower_char f = CHR ''/''"
      "lower_char g = CHR ''/''"
    by (auto simp add: lower_def map_eq_Cons_conv)
  have w: "a \<noteq> CHR ''w''"
    using l(1) by (auto simp add: lower_char_def)
  have s: "lower_char e \<noteq> lower_char CHR ''s''"
    using l(5) by (simp add: lower_char_def)
  have h: "lower_char CHR ''h'' = CHR ''h''" "lower_char CHR ''t'' = CHR ''t''"
    "lower_char CHR ''p'' = CHR ''p''" "lower_char CHR '':'' = CHR '':''"
    "lower_char CHR ''/'' = CHR ''/''" "lower_char CHR ''w'' = CHR ''w''"
    by (simp_all add: lower_char_def)
  show "token_here True (p @ x) = Some (p @ x)"
    using assms(1) url_run_all [OF assms(2)] l s h
    by (simp add: token_here_def p ci_startswith_Cons)
  show "\<not> ci_startswith (p @ x) ''www.''"
    using l h by (simp add: p ci_startswith_Cons)
  show "\<not> startswith (p @ x) ''www.''"
    using w by (simp add: p startswith_def)
  show "startswith (lower (p @ x)) ''http://''"
    using l by (simp add: p startswith_def lower_def)
qed

lemma token_here_https:
  assumes "x \<noteq> []" "list_all url_char x" "lower p = ''https://''"
  shows "token_here True (p @ x) = Some (p @ x)" "\<not> ci_startswith (p @ x) ''www.''"
    "\<not> startswith (p @ x) ''www.''" "startswith (lower (p @ x)) ''https://''"
proof -
  from assms(3) obtain a b c d e f g i where p: "p = [a, b, c, d, e, f, g, i]"
    and l: "lower_char a = CHR ''h''" "lower_char b = CHR ''t''" "lower_char c = CHR ''t''"
      "lower_char d = CHR ''p''" "lower_char e = CHR ''s''" "lower_char f = CHR '':''"
      "lower_char g = CHR ''/''" "lower_char i = CHR ''/''"
    by (auto simp add: lower_def map_eq_Cons_conv)
  have w: "a \<noteq> CHR ''w''"
    using l(1) by (auto simp add: lower_char_def)
  have h: "lower_char CHR ''h'' = CHR ''h''" "lower_char CHR ''t'' = CHR ''t''"
    "lower_char CHR ''p'' = CHR ''p''" "lower_char CHR '':'' = CHR '':''"
    "lower_char CHR ''/'' = CHR ''/''" "lower_char CHR ''w'' = CHR ''w''"
    "lower_char CHR ''s'' = CHR ''s''"
    by (simp_all add: lower_char_def)
  show "token_here True (p @ x) = Some (p @ x)"
    using assms(1) url_run_all [OF assms(2)] l h
    by (simp add: token_here_def p ci_startswith_Cons)
  show "\<not> ci_startswith (p @ x) ''www.''"
    using l h by (simp add: p ci_startswith_Cons)
  show "\<not> startswith (p @ x) ''www.''"
    using w by (simp add: p startswith_def)
  show "startswith (lower (p @ x)) ''https://''"
    using l by (simp add: p startswith_def lower_def)
qed

lemma detection_agrees_on_whole_url:
  assumes u: "strip s = p @ x" and x: "x \<noteq> []" "list_all url_char x"
    and p: "p = ''www.'' \<or> lower p = ''http://'' \<or> lower p = ''https://''"
  shows "normalize_url (to_str (Text s)) = Some (if p = ''www.'' then ''https://'' @ strip s else strip s)"
    and "render_row_url (Text s) = Some (if p = ''www.'' then ''https://'' @ strip s else strip s)"
proof -
  have n: "normalize_url (to_str (Text s)) = map_option add_scheme (first_token at_word_start None (p @ x))"
    using u by (simp add: to_str_def is_nan_def normalize_url_strip)
  have ok: "at_word_start None = True"
    by (simp add: at_word_start_def)
  from p consider (www) "p = ''www.''" | (http) "lower p = ''http://''" | (https) "lower p = ''https://''"
    by blast
  then have "normalize_url (to_str (Text s)) = Some (if p = ''www.'' then ''https://'' @ strip s else strip s)
      \<and> render_row_url (Text s) = Some (if p = ''www.'' then ''https://'' @ strip s else strip s)"
  proof cases
    case www
    have "first_token at_word_start None (p @ x) = Some (p @ x)"
      using token_here_www [OF x, of "at_word_start None"] www
      by (intro first_token_head) simp
    moreover have "ci_startswith (''www.'' @ x) ''www.''"
      by (simp add: ci_startswith_def lower_def)
    moreover have "startswith (''www.'' @ x) ''www.''"
      by (simp add: startswith_def)
    ultimately show ?thesis
      using n u www by (simp add: add_scheme_def render_row_url_def)
  next
    case http
    have "first_token at_word_start None (p @ x) = Some (p @ x)"
      using token_here_http(1) [OF x http] ok
      by (intro first_token_head) simp
    moreover have "p \<noteq> ''www.''"
      using http by (auto simp add: lower_def lower_char_def)
    ultimately show ?thesis
      using n u token_here_http(2,3,4) [OF x http]
      by (simp add: add_scheme_def render_row_url_def)
  next
    case https
    have "first_token at_word_start None (p @ x) = Some (p @ x)"
      using token_here_https(1) [OF x https] ok
      by (intro first_token_head) simp
    moreover have "p \<noteq> ''www.''"
      using https by (auto simp add: lower_def lower_char_def)
    ultimately show ?thesis
      using n u token_here_https(2,3,4) [OF x https]
      by (simp add: add_scheme_def render_row_url_def)
  qed
  then show "normalize_url (to_str (Text s)) = Some (if p = ''www.'' then ''https://'' @ strip s else strip s)"
    and "render_row_url (Text s) = Some (if p = ''www.'' then ''https://'' @ strip s else strip s)"
    by simp_all
qed

lemma lower_h_w: "lower_char CHR ''h'' = CHR ''h''" "lower_char CHR ''w'' = CHR ''w''"
  by (simp_all add: lower_char_def)

lemma token_here_needs_h_w:
  "lower_char c \<noteq> CHR ''h'' \<Longrightarrow> lower_char c \<noteq> CHR ''w'' \<Longrightarrow> token_here f (c # cs) = None"
  by (simp add: token_here_def ci_startswith_Cons lower_h_w)

lemma first_token_needs_h_w:
  "\<forall>c\<in>set s. lower_char c \<noteq> CHR ''h'' \<and> lower_char c \<noteq> CHR ''w''
     \<Longrightarrow> first_token ok prev s = None"
  by (induction s arbitrary: prev) (simp_all add: token_here_needs_h_w)

lemma digit_or_minus_lower:
  "is_digit c \<or> c = CHR ''-'' \<Longrightarrow> lower_char c \<noteq> CHR ''h'' \<and> lower_char c \<noteq> CHR ''w''"
  by (auto simp add: is_digit_def lower_char_eq_code lower_char_code)

lemma str_int_no_h_w:
  "\<forall>c\<in>set (str_int i). lower_char c \<noteq> CHR ''h'' \<and> lower_char c \<noteq> CHR ''w''"
  using str_int_chars [of i] digit_or_minus_lower by (auto simp add: list_all_iff)

lemma strip_subset: "set (strip s) \<subseteq> set s"
proof
  fix c assume "c \<in> set (strip s)"
  then have "c \<in> set (dropWhile is_space (rev (dropWhile is_space s)))"
    by (simp add: strip_def)
  then have "c \<in> set (rev (dropWhile is_space s))"
    by (rule set_dropWhileD)
  then have "c \<in> set (dropWhile is_space s)"
    by simp
  then show "c \<in> set s"
    by (rule set_dropWhileD)
qed

lemma render_row_url_needs_h_w:
  assumes "\<forall>c\<in>set (py_str v). lower_char c \<noteq> CHR ''h'' \<and> lower_char c \<noteq> CHR ''w''"
  shows "render_row_url v = None"
proof -
  define s where "s = strip (py_str v)"
  have a: "\<forall>c\<in>set s. lower_char c \<noteq> CHR ''h'' \<and> lower_char c \<noteq> CHR ''w''"
    using assms strip_subset [of "py_str v"] by (auto simp add: s_def)
  have "\<not> startswith s ''www.''" "\<not> startswith (lower s) ''http://''"
    "\<not> startswith (lower s) ''https://''"
    using a by (cases s; auto simp add: startswith_def lower_def lower_h_w)+
  then show ?thesis
    by (simp add: render_row_url_def s_def [symmetric])
qed

lemma number_has_no_url:
  "normalize_url (to_str (IntNum i)) = None" "render_row_url (IntNum i) = None"
  using str_int_no_h_w [of i]
  by (simp_all add: to_str_def is_nan_def normalize_url_first_token first_token_needs_h_w
        render_row_url_needs_h_w)

text \<open>
  C2, as the code has it. The detection branches of \<open>render_row\<close> and of \<open>open_all_urls\<close>
  compute the same URL for every cell value. They agree with \<open>normalize_url\<close> of the
  terminal viewer on a missing cell and on an integer cell, which have no URL, and on a
  text whose trimmed form is as a whole one token: \<open>www.\<close> in lower case, or \<open>http://\<close> or
  \<open>https://\<close> in any case, followed by one or more characters that are neither white space
  nor \<open><\<close>, \<open>>\<close> or a double quote, and nothing after them.
\<close>

theorem gui_detection_agrees_on_whole_cell_urls:
  "open_all_urls_url v = (if is_nan v then None else render_row_url v)
   \<and> url_of (render_cell (col, v)) = open_all_urls_url v
   \<and> (strip s = p @ x \<and> x \<noteq> [] \<and> list_all url_char x
        \<and> (p = ''www.'' \<or> lower p = ''http://'' \<or> lower p = ''https://'') \<longrightarrow>
        normalize_url (to_str (Text s)) = open_all_urls_url (Text s)
        \<and> open_all_urls_url (Text s)
            = Some (if p = ''www.'' then ''https://'' @ strip s else strip s))
   \<and> normalize_url (to_str Missing) = None \<and> open_all_urls_url Missing = None
   \<and> normalize_url (to_str (IntNum i)) = None \<and> open_all_urls_url (IntNum i) = None"
proof -
  have a: "open_all_urls_url v = (if is_nan v then None else render_row_url v)"
    by (rule open_all_urls_url_eq)
  have b: "url_of (render_cell (col, v)) = open_all_urls_url v"
    by (rule render_cell_url)
  have c: "strip s = p @ x \<and> x \<noteq> [] \<and> list_all url_char x
        \<and> (p = ''www.'' \<or> lower p = ''http://'' \<or> lower p = ''https://'') \<longrightarrow>
        normalize_url (to_str (Text s)) = open_all_urls_url (Text s)
        \<and> open_all_urls_url (Text s)
            = Some (if p = ''www.'' then ''https://'' @ strip s else strip s)"
    using detection_agrees_on_whole_url [of s p x]
    by (simp add: open_all_urls_url_eq is_nan_def)
  have d: "normalize_url (to_str Missing) = None \<and> open_all_urls_url Missing = None"
    by (simp add: to_str_def is_nan_def normalize_url_first_token open_all_urls_url_def)
  have e: "normalize_url (to_str (IntNum i)) = None \<and> open_all_urls_url (IntNum i) = None"
    using number_has_no_url [of i] by (simp add: open_all_urls_url_eq)
  from a b c d e show ?thesis by blast
qed

theorem gui_detection_agrees_on_whole_cell_urls_witness:
  "strip '' www.ann.org '' = ''www.'' @ ''ann.org'' \<and> list_all url_char ''ann.org''
   \<and> normalize_url (to_str (Text '' www.ann.org '')) = Some ''https://www.ann.org''
   \<and> open_all_urls_url (Text '' www.ann.org '') = Some ''https://www.ann.org''"
proof -
  have a: "strip '' www.ann.org '' = ''www.'' @ ''ann.org''"
    by code_simp
  have b: "list_all url_char ''ann.org''"
    by code_simp
  have c: "''ann.org'' \<noteq> []"
    by simp
  have d: "''https://'' @ strip '' www.ann.org '' = ''https://www.ann.org''"
    by code_simp
  have "strip '' www.ann.org '' = ''www.'' @ ''ann.org'' \<and> ''ann.org'' \<noteq> []
        \<and> list_all url_char ''ann.org''
        \<and> (''www.'' = ''www.'' \<or> lower ''www.'' = ''http://'' \<or> lower ''www.'' = ''https://'')
        \<longrightarrow>
        normalize_url (to_str (Text '' www.ann.org '')) = open_all_urls_url (Text '' www.ann.org '')
        \<and> open_all_urls_url (Text '' www.ann.org '')
            = Some (if ''www.'' = ''www.'' then ''https://'' @ strip '' www.ann.org ''
                    else strip '' www.ann.org '')"
    using gui_detection_agrees_on_whole_cell_urls
        [where s = "'' www.ann.org ''" and p = "''www.''" and x = "''ann.org''"
           and v = Missing and col = "[]" and i = 0]
    by blast
  with a b c have "normalize_url (to_str (Text '' www.ann.org ''))
        = open_all_urls_url (Text '' www.ann.org '')
      \<and> open_all_urls_url (Text '' www.ann.org '') = Some (''https://'' @ strip '' www.ann.org '')"
    by simp
  with a b d show ?thesis
    by (simp only: simp_thms)
qed

text \<open>
  C2 as it is worded fails: for the cell \<open>see www.example.org\<close> the terminal viewer finds
  \<open>https://www.example.org\<close> and the GUI finds no URL, and for \<open>www.a b\<close> the terminal viewer
  cuts the URL at the blank while the GUI takes the whole text.
\<close>

theorem gui_detection_differs_from_terminal:
  "normalize_url (to_str (Text ''see www.example.org'')) = Some ''https://www.example.org''
   \<and> render_row_url (Text ''see www.example.org'') = None
   \<and> open_all_urls_url (Text ''see www.example.org'') = None
   \<and> normalize_url (to_str (Text ''www.a b'')) = Some ''https://www.a''
   \<and> render_row_url (Text ''www.a b'') = Some ''https://www.a b''
   \<and> open_all_urls_url (Text ''www.a b'') = Some ''https://www.a b''"
proof -
  have "normalize_url (to_str (Text ''see www.example.org'')) = Some ''https://www.example.org''"
    by code_simp
  moreover have "render_row_url (Text ''see www.example.org'') = None"
    by code_simp
  moreover have "open_all_urls_url (Text ''see www.example.org'') = None"
    by code_simp
  moreover have "normalize_url (to_str (Text ''www.a b'')) = Some ''https://www.a''"
    by code_simp
  moreover have "render_row_url (Text ''www.a b'') = Some ''https://www.a b''"
    by code_simp
  moreover have "open_all_urls_url (Text ''www.a b'') = Some ''https://www.a b''"
    by code_simp
  ultimately show ?thesis by simp
qed

section \<open>Further properties of the navigation code\<close>

lemma tab_branch_eq:
  "row_lines t r = Inr (lines, idxs) \<Longrightarrow>
     tab_branch t (r, f) =
       Inr (r, if idxs = [] then f else (f + 1) mod int (length idxs))"
  by (simp add: tab_branch_def)

lemma tab_branch_times_eq:
  assumes "row_lines t r = Inr (lines, idxs)" "idxs \<noteq> []" "0 \<le> f" "f < int (length idxs)"
  shows "tab_branch_times t k (r, f) = Inr (r, (f + int k) mod int (length idxs))"
  using assms(3,4)
proof (induction k arbitrary: f)
  case 0
  then show ?case by simp
next
  case (Suc k)
  define g where "g = (f + 1) mod int (length idxs)"
  have n: "0 < int (length idxs)"
    using assms(2) by simp
  have g: "0 \<le> g" "g < int (length idxs)"
    using n by (simp_all add: g_def)
  have "(g + int k) mod int (length idxs) = (f + 1 + int k) mod int (length idxs)"
    unfolding g_def by (rule mod_add_left_eq)
  also have "f + 1 + int k = f + int (Suc k)"
    by simp
  finally have "(g + int k) mod int (length idxs) = (f + int (Suc k)) mod int (length idxs)" .
  then show ?case
    using Suc.IH [OF g] tab_branch_eq [OF assms(1), of f] assms(2)
    by (simp add: g_def)
qed

text \<open>
  The body of the TAB branch, taken by itself: on a record without URL fields it changes
  nothing; otherwise it advances the URL focus by one modulo the length of the URL index
  list, and run as many times as the list is long it returns a focus within the list to
  where it started.
\<close>

theorem tab_branch_cycles:
  "row_lines t r = Inr (lines, idxs) \<longrightarrow>
     (idxs = [] \<longrightarrow> tab_branch t (r, f) = Inr (r, f))
     \<and> (idxs \<noteq> [] \<longrightarrow> tab_branch t (r, f) = Inr (r, (f + 1) mod int (length idxs)))
     \<and> (0 \<le> f \<and> f < int (length idxs) \<longrightarrow>
          tab_branch_times t (length idxs) (r, f) = Inr (r, f))"
proof
  assume a: "row_lines t r = Inr (lines, idxs)"
  have "0 \<le> f \<and> f < int (length idxs) \<longrightarrow>
          tab_branch_times t (length idxs) (r, f) = Inr (r, f)"
  proof
    assume b: "0 \<le> f \<and> f < int (length idxs)"
    then have "idxs \<noteq> []" by auto
    then show "tab_branch_times t (length idxs) (r, f) = Inr (r, f)"
      using tab_branch_times_eq [OF a _ _ _, of f "length idxs"] b by simp
  qed
  then show "(idxs = [] \<longrightarrow> tab_branch t (r, f) = Inr (r, f))
     \<and> (idxs \<noteq> [] \<longrightarrow> tab_branch t (r, f) = Inr (r, (f + 1) mod int (length idxs)))
     \<and> (0 \<le> f \<and> f < int (length idxs) \<longrightarrow>
          tab_branch_times t (length idxs) (r, f) = Inr (r, f))"
    using tab_branch_eq [OF a, of f] by simp
qed

theorem tab_branch_cycles_witness:
  "row_lines scenario 2 =
       Inr ([(''name'', ''http://cy.net'', Some ''http://cy.net''),
             (''site'', ''see https://cy.org now'', Some ''https://cy.org'')], [0, 1])
   \<and> tab_branch scenario (2, 0) = Inr (2, 1)
   \<and> tab_branch scenario (2, 1) = Inr (2, 0)
   \<and> tab_branch_times scenario (length [0::int, 1]) (2, 1) = Inr (2, 1)"
proof -
  have a: "row_lines scenario 2 =
       Inr ([(''name'', ''http://cy.net'', Some ''http://cy.net''),
             (''site'', ''see https://cy.org now'', Some ''https://cy.org'')], [0, 1])"
    by code_simp
  have b: "[0::int, 1] \<noteq> []" "(0::int) \<le> 1 \<and> 1 < int (length [0::int, 1])"
    "(0 + 1) mod int (length [0::int, 1]) = 1" "(1 + 1) mod int (length [0::int, 1]) = 0"
    by simp_all
  from a b tab_branch_cycles [where t = scenario and r = 2 and idxs = "[0, 1]" and f = 0
      and lines = "[(''name'', ''http://cy.net'', Some ''http://cy.net''),
             (''site'', ''see https://cy.org now'', Some ''https://cy.org'')]"]
  have c: "tab_branch scenario (2, 0) = Inr (2, 1)"
    by (simp only: simp_thms)
  from a b tab_branch_cycles [where t = scenario and r = 2 and idxs = "[0, 1]" and f = 1
      and lines = "[(''name'', ''http://cy.net'', Some ''http://cy.net''),
             (''site'', ''see https://cy.org now'', Some ''https://cy.org'')]"]
  have d: "tab_branch scenario (2, 1) = Inr (2, 0)
           \<and> tab_branch_times scenario (length [0::int, 1]) (2, 1) = Inr (2, 1)"
    by (simp only: simp_thms)
  from a c d show ?thesis
    by (simp only: simp_thms)
qed

text \<open>
  Whenever RIGHT or LEFT changes the record cursor, the URL focus is reset to \<open>0\<close>; \<open>draw\<close>
  then focuses the first URL field of the new record when it has one, and no line (\<open>-1\<close>)
  when it has none.
\<close>

theorem row_change_resets_focus:
  "(r < len t - 1 \<longrightarrow> on_key t KEY_RIGHT (r, f) = Inr ((r + 1, 0), []))
   \<and> (0 < r \<longrightarrow> on_key t KEY_LEFT (r, f) = Inr ((r - 1, 0), []))
   \<and> (0 \<le> r \<and> r < len t \<longrightarrow>
        (\<exists>lines idxs foot. row_lines t r = Inr (lines, idxs)
           \<and> draw t r 0 = Inr (0, RowScreen lines (if idxs = [] then - 1 else hd idxs) foot)))"
proof -
  have a: "0 \<le> r \<and> r < len t \<longrightarrow>
        (\<exists>lines idxs foot. row_lines t r = Inr (lines, idxs)
           \<and> draw t r 0 = Inr (0, RowScreen lines (if idxs = [] then - 1 else hd idxs) foot))"
  proof
    assume h: "0 \<le> r \<and> r < len t"
    then obtain lines idxs where
      b: "row_lines t r = Inr (lines, idxs)"
      and c: "\<forall>k\<in>set idxs. 0 \<le> k \<and> k < int (length lines)"
      using row_lines_ok [of r t] by blast
    show "\<exists>lines idxs foot. row_lines t r = Inr (lines, idxs)
           \<and> draw t r 0 = Inr (0, RowScreen lines (if idxs = [] then - 1 else hd idxs) foot)"
    proof (cases idxs)
      case Nil
      then show ?thesis
        using b h by (simp add: draw_def)
    next
      case (Cons k ks)
      then have k: "0 \<le> k" "k < int (length lines)"
        using c by simp_all
      have "py_get idxs 0 = Inr k"
        using Cons by (simp add: py_get_def py_index_def)
      moreover have "py_get lines k = Inr (lines ! nat k)"
        using k by (rule py_get_ok)
      ultimately show ?thesis
        using b h Cons by (cases "lines ! nat k") (simp add: draw_def Let_def)
    qed
  qed
  show ?thesis
    using a by (simp add: on_key_right on_key_left)
qed

theorem row_change_resets_focus_witness:
  "(1::int) < len scenario - 1
   \<and> main_loop scenario [KEY_RIGHT, KEY_RIGHT] (0, 0) = Inr ((2, 0), [])
   \<and> on_key scenario KEY_RIGHT (1, 5) = Inr ((2, 0), [])
   \<and> draw scenario 2 0 =
       Inr (0, RowScreen [(''name'', ''http://cy.net'', Some ''http://cy.net''),
                          (''site'', ''see https://cy.org now'', Some ''https://cy.org'')] 0
                ''Selected URL field: name  |  ENTER opens in your browser'')"
proof -
  have a: "(1::int) < len scenario - 1"
    by (simp add: len_def scenario_def)
  have b: "main_loop scenario [KEY_RIGHT, KEY_RIGHT] (0, 0) = Inr ((2, 0), [])"
    by code_simp
  have c: "draw scenario 2 0 =
       Inr (0, RowScreen [(''name'', ''http://cy.net'', Some ''http://cy.net''),
                          (''site'', ''see https://cy.org now'', Some ''https://cy.org'')] 0
                ''Selected URL field: name  |  ENTER opens in your browser'')"
    by code_simp
  show ?thesis
    using a b c row_change_resets_focus [of 1 scenario 5]
    by simp
qed

end
